theory Spec2Isabelle
  imports Complex_Main "HOL-Library.Word" "HOL-Library.Log_Nat"
begin

section \<open>JavaScript numbers and the Int32Array cell\<close>

text \<open>
  The values that \<open>QunTime.parallel\<close> (src/Tensor/QunTime.js) computes with are
  JavaScript Numbers, that is IEEE 754 doubles. A finite Number is modelled by the real
  it denotes, next to the three values that are no reals; \<open>-0\<close> is not told apart from
  \<open>0\<close>. The result of a multiplication or a division is the exact result rounded to
  the nearest double, ties to even.
\<close>

datatype jsnum = Num real | PosInfinity | NegInfinity | NaN

text \<open>The power \<open>2^e\<close> for an integer \<open>e\<close>.\<close>

definition pow2 :: "int \<Rightarrow> real" where
  "pow2 e = (if 0 \<le> e then 2 ^ nat e else 1 / 2 ^ nat (- e))"

text \<open>
  The binary exponent of a positive real \<open>a\<close>: the integer \<open>e\<close> with
  \<open>2^e \<le> a < 2^(e+1)\<close>, read off the number of bits of the integer part of \<open>a\<close> or of
  \<open>1 / a\<close>.
\<close>

definition exponent_of :: "real \<Rightarrow> int" where
  "exponent_of a =
     (if 1 \<le> a then bitlen \<lfloor>a\<rfloor> - 1
      else (let k = bitlen \<lfloor>1 / a\<rfloor>
            in if a * 2 ^ nat (k - 1) = 1 then 1 - k else - k))"

text \<open>The nearest integer, the even one of two that are equally near.\<close>

definition round_half_even :: "real \<Rightarrow> int" where
  "round_half_even q =
     (let f = \<lfloor>q\<rfloor>; d = q - of_int f
      in if d < 1 / 2 then f
         else if 1 / 2 < d then f + 1
         else if even f then f else f + 1)"

text \<open>
  Rounding a real to a double. A double has 53 significant bits: in the binade of
  exponent \<open>e\<close> the doubles are the multiples of \<open>2^(e - 52)\<close>; below \<open>2^-1022\<close> they
  are the multiples of \<open>2^-1074\<close> (the subnormal numbers). A rounded magnitude of
  \<open>2^1024\<close> or more is an infinity: that is any magnitude of exponent 1024 or more, and
  one of exponent 1023 that is rounded up to \<open>2^53\<close> multiples of \<open>2^971\<close>.
\<close>

definition round_double :: "real \<Rightarrow> jsnum" where
  "round_double x =
     (if x = 0 then Num 0
      else (let a = \<bar>x\<bar>;
                e = max (exponent_of a) (- 1022);
                ulp = pow2 (e - 52);
                n = round_half_even (a / ulp);
                r = of_int n * ulp
            in if 1024 \<le> e \<or> (e = 1023 \<and> n = 2 ^ 53)
               then (if 0 < x then PosInfinity else NegInfinity)
               else Num (if 0 < x then r else - r)))"

text \<open>The operator \<open>*\<close> of the source (\<open>score * 1e6\<close>).\<close>

fun js_mul :: "jsnum \<Rightarrow> jsnum \<Rightarrow> jsnum" where
  "js_mul NaN y = NaN"
| "js_mul (Num a) NaN = NaN"
| "js_mul PosInfinity NaN = NaN"
| "js_mul NegInfinity NaN = NaN"
| "js_mul (Num a) (Num b) = round_double (a * b)"
| "js_mul (Num a) PosInfinity =
     (if a = 0 then NaN else if 0 < a then PosInfinity else NegInfinity)"
| "js_mul (Num a) NegInfinity =
     (if a = 0 then NaN else if 0 < a then NegInfinity else PosInfinity)"
| "js_mul PosInfinity (Num b) =
     (if b = 0 then NaN else if 0 < b then PosInfinity else NegInfinity)"
| "js_mul NegInfinity (Num b) =
     (if b = 0 then NaN else if 0 < b then NegInfinity else PosInfinity)"
| "js_mul PosInfinity PosInfinity = PosInfinity"
| "js_mul PosInfinity NegInfinity = NegInfinity"
| "js_mul NegInfinity PosInfinity = NegInfinity"
| "js_mul NegInfinity NegInfinity = PosInfinity"

text \<open>
  The operator \<open>/\<close> of the source (\<open>Atomics.load(sharedArray, 0) / 1e6\<close>). A zero
  divisor is read as \<open>+0\<close>.
\<close>

fun js_div :: "jsnum \<Rightarrow> jsnum \<Rightarrow> jsnum" where
  "js_div NaN y = NaN"
| "js_div (Num a) NaN = NaN"
| "js_div PosInfinity NaN = NaN"
| "js_div NegInfinity NaN = NaN"
| "js_div (Num a) (Num b) =
     (if b = 0 then (if a = 0 then NaN else if 0 < a then PosInfinity else NegInfinity)
      else round_double (a / b))"
| "js_div (Num a) PosInfinity = Num 0"
| "js_div (Num a) NegInfinity = Num 0"
| "js_div PosInfinity (Num b) = (if 0 \<le> b then PosInfinity else NegInfinity)"
| "js_div NegInfinity (Num b) = (if 0 \<le> b then NegInfinity else PosInfinity)"
| "js_div PosInfinity PosInfinity = NaN"
| "js_div PosInfinity NegInfinity = NaN"
| "js_div NegInfinity PosInfinity = NaN"
| "js_div NegInfinity NegInfinity = NaN"

text \<open>\<open>Math.floor\<close>: the greatest integer not above the argument.\<close>

fun Math_floor :: "jsnum \<Rightarrow> jsnum" where
  "Math_floor (Num a) = Num (of_int \<lfloor>a\<rfloor>)"
| "Math_floor PosInfinity = PosInfinity"
| "Math_floor NegInfinity = NegInfinity"
| "Math_floor NaN = NaN"

text \<open>The operator \<open><\<close> of the source on Numbers: false as soon as one side is NaN.\<close>

fun js_lt :: "jsnum \<Rightarrow> jsnum \<Rightarrow> bool" where
  "js_lt (Num a) (Num b) = (a < b)"
| "js_lt (Num a) PosInfinity = True"
| "js_lt NegInfinity (Num b) = True"
| "js_lt NegInfinity PosInfinity = True"
| "js_lt x y = False"


text \<open>
  An element of an \<open>Int32Array\<close> is a 32-bit word read as two's complement. A Number
  written into it, by an indexed assignment or by \<open>Atomics.store\<close>, is first cut to
  its integer part and then reduced modulo \<open>2^32\<close>; NaN and the infinities become 0.
\<close>

type_synonym int32 = "32 word"

definition trunc_toward_zero :: "real \<Rightarrow> int" where
  "trunc_toward_zero a = (if 0 \<le> a then \<lfloor>a\<rfloor> else \<lceil>a\<rceil>)"

fun ToInt32 :: "jsnum \<Rightarrow> int32" where
  "ToInt32 (Num a) = word_of_int (trunc_toward_zero a)"
| "ToInt32 PosInfinity = 0"
| "ToInt32 NegInfinity = 0"
| "ToInt32 NaN = 0"

definition Atomics_load :: "int32 \<Rightarrow> jsnum" where
  "Atomics_load cell = Num (of_int (sint cell))"

definition Atomics_store :: "jsnum \<Rightarrow> int32" where
  "Atomics_store v = ToInt32 v"

definition MAX_SAFE_INTEGER :: jsnum where
  "MAX_SAFE_INTEGER = Num 9007199254740991"

definition INT32_MAX :: int where
  "INT32_MAX = 2147483647"

text \<open>The literal \<open>1e6\<close>.\<close>

definition scale_factor :: jsnum where
  "scale_factor = Num 1000000"

section \<open>The class \<open>QunTime\<close>\<close>

text \<open>The static field \<open>entangled\<close>, initially \<open>false\<close>.\<close>

record QunTime =
  entangled :: bool

definition QunTime_init :: QunTime where
  "QunTime_init = \<lparr>entangled = False\<rparr>"

text \<open>\<open>static entangledMode(enable = true)\<close>: an omitted argument is \<open>None\<close>.\<close>

definition entangledMode :: "bool option \<Rightarrow> 'a QunTime_scheme \<Rightarrow> 'a QunTime_scheme" where
  "entangledMode enable q =
     q\<lparr>entangled := (case enable of None \<Rightarrow> True | Some b \<Rightarrow> b)\<rparr>"

subsection \<open>Workers\<close>

text \<open>
  A run owns at most one \<open>SharedArrayBuffer\<close>, so a reference to it is a token; its
  single \<open>Int32\<close> element is the field \<open>sharedBuffer\<close> of the run.
\<close>

datatype sab = SharedArrayBuffer

record workerData =
  wd_entangled :: bool
  wd_sharedBuffer :: "sab option"

text \<open>
  What a worker reports: \<open>Inr result\<close> for \<open>parentPort.postMessage(result)\<close>, and
  \<open>Inl e\<close> for the \<open>error\<close> event of a task that threw \<open>e\<close>.

  The task \<open>fn\<close> is opaque code. It is called with \<open>startingBest\<close> and
  \<open>maybeUpdateShared\<close>; the latter returns nothing, so all that an invocation learns
  from the run is \<open>startingBest\<close>, and what it does is the scores it passes to
  \<open>maybeUpdateShared\<close>, in order, and then the value it returns or the error it throws:
  this is an \<open>invocation\<close>. Every worker evaluates the same source text, but the code
  may draw random numbers or read the clock, so a \<open>task\<close> gives one invocation for each
  worker, by the worker's index in spawn order.
\<close>

type_synonym 'r outcome = "string + 'r"

type_synonym 'r invocation = "jsnum \<Rightarrow> jsnum list \<times> 'r outcome"

type_synonym 'r task = "nat \<Rightarrow> 'r invocation"

text \<open>
  The places where the worker script can be between two accesses to shared memory or to
  the message port:
  \<^item> \<open>AtStart\<close>: nothing has run yet;
  \<^item> \<open>InFn scores out\<close>: inside \<open>fn\<close>, with the calls of \<open>maybeUpdateShared\<close> still to
    make and the outcome after them;
  \<^item> \<open>Loaded scaled current scores out\<close>: inside \<open>maybeUpdateShared\<close>, after
    \<open>Atomics.load\<close> and before the comparison and \<open>Atomics.store\<close>;
  \<^item> \<open>Posted out\<close>: the message or the error is on its way to the coordinator;
  \<^item> \<open>Exited\<close>: the coordinator has handled it.
\<close>

datatype 'r pc =
    AtStart
  | InFn "jsnum list" "'r outcome"
  | Loaded jsnum jsnum "jsnum list" "'r outcome"
  | Posted "'r outcome"
  | Exited

record 'r worker =
  fn :: "'r invocation"
  workerData :: workerData
  sharedArray :: "sab option"
  startingBest :: "jsnum option"
  pc :: "'r pc"

definition new_Worker :: "'r invocation \<Rightarrow> workerData \<Rightarrow> 'r worker" where
  "new_Worker f wd =
     \<lparr>fn = f, workerData = wd, sharedArray = None, startingBest = None, pc = AtStart\<rparr>"

text \<open>
  The head of the script up to the call of \<open>fn\<close>:
  \<^verbatim>\<open>
  let sharedArray = null;
  if (entangled && workerData.sharedBuffer) sharedArray = new Int32Array(workerData.sharedBuffer);
  const startingBest = sharedArray ? (Atomics.load(sharedArray, 0) / 1e6) : Infinity;
  const result = fn(startingBest, maybeUpdateShared);
  \<close>
\<close>

definition enter_fn :: "jsnum \<Rightarrow> 'r worker \<Rightarrow> 'r worker" where
  "enter_fn best w =
     (case fn w best of (scores, out) \<Rightarrow> w\<lparr>startingBest := Some best, pc := InFn scores out\<rparr>)"

definition view_of :: "workerData \<Rightarrow> sab option" where
  "view_of wd =
     (if wd_entangled wd \<and> wd_sharedBuffer wd \<noteq> None then wd_sharedBuffer wd else None)"

text \<open>
  One step of a worker on the buffer's element (\<open>None\<close>: no buffer was allocated). The
  result is \<open>None\<close> where the worker has no step to take.
  \<^verbatim>\<open>
  function maybeUpdateShared(score) {
    if (!sharedArray) return;
    const scaled = Math.floor(score * 1e6);
    const current = Atomics.load(sharedArray, 0);
    if (scaled < current) {
      Atomics.store(sharedArray, 0, scaled);
    }
  }
  \<close>
\<close>

definition scaled_of :: "jsnum \<Rightarrow> jsnum" where
  "scaled_of score = Math_floor (js_mul score scale_factor)"

definition worker_step :: "'r worker \<Rightarrow> int32 option \<Rightarrow> ('r worker \<times> int32 option) option" where
  "worker_step w buf =
     (case pc w of
        AtStart \<Rightarrow>
          (case view_of (workerData w) of
             None \<Rightarrow> Some (enter_fn PosInfinity (w\<lparr>sharedArray := None\<rparr>), buf)
           | Some r \<Rightarrow>
               (case buf of
                  None \<Rightarrow> None
                | Some cell \<Rightarrow>
                    Some (enter_fn (js_div (Atomics_load cell) scale_factor)
                            (w\<lparr>sharedArray := Some r\<rparr>), buf)))
      | InFn [] out \<Rightarrow> Some (w\<lparr>pc := Posted out\<rparr>, buf)
      | InFn (score # rest) out \<Rightarrow>
          (case sharedArray w of
             None \<Rightarrow> Some (w\<lparr>pc := InFn rest out\<rparr>, buf)
           | Some r \<Rightarrow>
               (case buf of
                  None \<Rightarrow> None
                | Some cell \<Rightarrow>
                    Some (w\<lparr>pc := Loaded (scaled_of score) (Atomics_load cell) rest out\<rparr>, buf)))
      | Loaded scaled current rest out \<Rightarrow>
          (case buf of
             None \<Rightarrow> None
           | Some cell \<Rightarrow>
               Some (w\<lparr>pc := InFn rest out\<rparr>,
                     if js_lt scaled current then Some (Atomics_store scaled) else Some cell))
      | Posted out \<Rightarrow> None
      | Exited \<Rightarrow> None)"

text \<open>
  A whole call of \<open>maybeUpdateShared\<close> with no step of another worker between its
  load and its store, as a function of the buffer's element.
\<close>

definition maybeUpdateShared :: "sab option \<Rightarrow> jsnum \<Rightarrow> int32 option \<Rightarrow> int32 option" where
  "maybeUpdateShared view score buf =
     (case view of
        None \<Rightarrow> buf
      | Some r \<Rightarrow>
          (case buf of
             None \<Rightarrow> None
           | Some cell \<Rightarrow>
               (let scaled = scaled_of score;
                    current = Atomics_load cell
                in if js_lt scaled current then Some (Atomics_store scaled) else Some cell)))"

subsection \<open>The coordinator\<close>

datatype promise = Pending | Fulfilled | Rejected string

text \<open>
  The state of one call of \<open>parallel\<close>: the class field, the variables of the promise
  executor's closure, the buffer's element, the workers and the promise. \<open>resolve\<close> is
  called with the array \<open>results\<close> itself, so the value of a fulfilled promise is the
  field \<open>results\<close>.
\<close>

record 'r run = QunTime +
  count :: int
  completed :: nat
  results :: "'r list"
  entangledEnabled :: bool
  sharedBuffer :: "int32 option"
  workers :: "'r worker list"
  promise :: promise

text \<open>Settling a promise that is settled already does nothing.\<close>

definition resolve :: "'r run \<Rightarrow> 'r run" where
  "resolve s = (if promise s = Pending then s\<lparr>promise := Fulfilled\<rparr> else s)"

definition reject :: "string \<Rightarrow> 'r run \<Rightarrow> 'r run" where
  "reject e s = (if promise s = Pending then s\<lparr>promise := Rejected e\<rparr> else s)"

text \<open>
  \<^verbatim>\<open>
  worker.on('message', result => {
    results.push(result);
    completed++;
    if (completed === count) resolve(results);
  });
  worker.on('error', reject);
  \<close>
\<close>

definition on_message :: "'r \<Rightarrow> 'r run \<Rightarrow> 'r run" where
  "on_message result s =
     (let s' = s\<lparr>results := results s @ [result], completed := completed s + 1\<rparr>
      in if int (completed s') = count s' then resolve s' else s')"

definition on_error :: "string \<Rightarrow> 'r run \<Rightarrow> 'r run" where
  "on_error e s = reject e s"

definition handle :: "'r outcome \<Rightarrow> 'r run \<Rightarrow> 'r run" where
  "handle out s = (case out of Inr result \<Rightarrow> on_message result s | Inl e \<Rightarrow> on_error e s)"

text \<open>
  \<^verbatim>\<open>for (let i = 0; i < count; i++) { const worker = new Worker(..., {workerData}); ... }\<close>
\<close>

function spawn_loop :: "int \<Rightarrow> int \<Rightarrow> 'r task \<Rightarrow> workerData \<Rightarrow> 'r worker list \<Rightarrow> 'r worker list" where
  "spawn_loop i cnt f wd ws =
     (if i < cnt then spawn_loop (i + 1) cnt f wd (ws @ [new_Worker (f (nat i)) wd]) else ws)"
  by pat_completeness auto
termination
  by (relation "measure (\<lambda>(i, cnt, f, wd, ws). nat (cnt - i))") auto

declare spawn_loop.simps [simp del]

text \<open>
  \<open>static async parallel(fn, count = 4)\<close>, up to the end of the executor: everything
  after it happens in the handlers. \<open>count\<close> is an integer; an omitted one is \<open>None\<close>.
  The constructor \<open>new Worker\<close> is taken to succeed.
\<close>

definition parallel :: "'r task \<Rightarrow> int option \<Rightarrow> QunTime \<Rightarrow> 'r run" where
  "parallel f count_arg this =
     (let cnt = (case count_arg of None \<Rightarrow> 4 | Some c \<Rightarrow> c);
          enabled = entangled this;
          buf = (if enabled then Some (ToInt32 MAX_SAFE_INTEGER) else None);
          wd = \<lparr>wd_entangled = enabled,
                wd_sharedBuffer = (if enabled then Some SharedArrayBuffer else None)\<rparr>
      in \<lparr>entangled = entangled this, count = cnt, completed = 0, results = [],
          entangledEnabled = enabled, sharedBuffer = buf,
          workers = spawn_loop 0 cnt f wd [], promise = Pending\<rparr>)"

subsection \<open>Executions\<close>

text \<open>
  What can happen while a run is in flight, one at a time: worker \<open>i\<close> takes its next
  step; the coordinator's event loop hands the report of worker \<open>i\<close> to the handlers;
  somebody on the main thread calls \<open>entangledMode\<close>. Both \<open>Atomics\<close> operations are
  sequentially consistent, so an execution is a sequence of such actions.
\<close>

datatype action = Step nat | Deliver nat | EntangledMode "bool option"

definition step :: "action \<Rightarrow> 'r run \<Rightarrow> 'r run option" where
  "step a s =
     (case a of
        Step i \<Rightarrow>
          (if i < length (workers s) then
             (case worker_step (workers s ! i) (sharedBuffer s) of
                None \<Rightarrow> None
              | Some (w', buf') \<Rightarrow> Some (s\<lparr>workers := (workers s)[i := w'], sharedBuffer := buf'\<rparr>))
           else None)
      | Deliver i \<Rightarrow>
          (if i < length (workers s) then
             (case pc (workers s ! i) of
                Posted out \<Rightarrow>
                  Some (handle out (s\<lparr>workers := (workers s)[i := (workers s ! i)\<lparr>pc := Exited\<rparr>]\<rparr>))
              | _ \<Rightarrow> None)
           else None)
      | EntangledMode enable \<Rightarrow> Some (entangledMode enable s))"

fun exec :: "action list \<Rightarrow> 'r run \<Rightarrow> 'r run option" where
  "exec [] s = Some s"
| "exec (a # as) s = (case step a s of None \<Rightarrow> None | Some s' \<Rightarrow> exec as s')"

text \<open>The value a caller awaiting the promise has, if any.\<close>

definition settled :: "'r run \<Rightarrow> (string + 'r list) option" where
  "settled s =
     (case promise s of
        Pending \<Rightarrow> None
      | Fulfilled \<Rightarrow> Some (Inr (results s))
      | Rejected e \<Rightarrow> Some (Inl e))"

text \<open>The actions of the run itself, as opposed to calls of \<open>entangledMode\<close>.\<close>

fun by_run :: "action \<Rightarrow> bool" where
  "by_run (Step i) = True"
| "by_run (Deliver i) = True"
| "by_run (EntangledMode enable) = False"

text \<open>
  The reports that the handlers have seen during an execution, in the order in which
  they saw them.
\<close>

definition delivered :: "action \<Rightarrow> 'r run \<Rightarrow> 'r outcome list" where
  "delivered a s =
     (case a of
        Deliver i \<Rightarrow>
          (if i < length (workers s) then
             (case pc (workers s ! i) of Posted out \<Rightarrow> [out] | _ \<Rightarrow> [])
           else [])
      | _ \<Rightarrow> [])"

fun observed :: "action list \<Rightarrow> 'r run \<Rightarrow> 'r outcome list" where
  "observed [] s = []"
| "observed (a # as) s =
     (case step a s of None \<Rightarrow> [] | Some s' \<Rightarrow> delivered a s @ observed as s')"

text \<open>The first error among reports, and the results of the messages among them.\<close>

fun first_error :: "'r outcome list \<Rightarrow> string option" where
  "first_error [] = None"
| "first_error (Inl e # outs) = Some e"
| "first_error (Inr r # outs) = first_error outs"

fun messages :: "'r outcome list \<Rightarrow> 'r list" where
  "messages [] = []"
| "messages (Inl e # outs) = messages outs"
| "messages (Inr r # outs) = r # messages outs"

text \<open>The workers whose report has been handled.\<close>

definition exited :: "'r run \<Rightarrow> nat set" where
  "exited s = set (filter (\<lambda>i. pc (workers s ! i) = Exited) [0..<length (workers s)])"

text \<open>No worker has a step left and no report waits for the handlers.\<close>

definition quiescent :: "'r run \<Rightarrow> bool" where
  "quiescent s =
     list_all (\<lambda>i. step (Step i) s = None \<and> step (Deliver i) s = None)
       [0..<length (workers s)]"

subsection \<open>Invariants of executions\<close>

text \<open>
  The coordinator's variables agree with the reports \<open>past\<close> that the handlers have seen
  so far: there is one worker for each unit of \<open>count\<close>, one exited worker for each
  report, \<open>completed\<close> and \<open>results\<close> count and hold the messages, and the promise is
  rejected with the first error, or fulfilled once \<open>count\<close> reports without an error
  have been seen.
\<close>

definition tally :: "'r outcome list \<Rightarrow> 'r run \<Rightarrow> bool" where
  "tally past s \<longleftrightarrow>
     length (workers s) = nat (count s) \<and>
     card (exited s) = length past \<and>
     completed s = length (messages past) \<and>
     results s = messages past \<and>
     promise s =
       (case first_error past of
          Some e \<Rightarrow> Rejected e
        | None \<Rightarrow> if past \<noteq> [] \<and> int (length past) = count s then Fulfilled else Pending)"

text \<open>Everything in the state of a run but the class field \<open>entangled\<close>.\<close>

definition in_flight ::
  "'r run \<Rightarrow> int \<times> nat \<times> 'r list \<times> bool \<times> int32 option \<times> 'r worker list \<times> promise" where
  "in_flight s =
     (count s, completed s, results s, entangledEnabled s, sharedBuffer s, workers s, promise s)"

text \<open>
  The workers of a run launched with the flag \<open>e\<close>: each has the \<open>workerData\<close> made at
  launch; one that has not started has no \<open>startingBest\<close>; one that has started has its
  view of the buffer exactly if \<open>e\<close> holds, and \<open>startingBest = Infinity\<close> if it does
  not. The buffer is allocated exactly if \<open>e\<close> holds.
\<close>

definition wired_worker :: "bool \<Rightarrow> 'r worker \<Rightarrow> bool" where
  "wired_worker e w \<longleftrightarrow>
     workerData w =
       \<lparr>wd_entangled = e, wd_sharedBuffer = (if e then Some SharedArrayBuffer else None)\<rparr> \<and>
     (case pc w of
        AtStart \<Rightarrow> startingBest w = None
      | Loaded scaled current rest out \<Rightarrow>
          e \<and> sharedArray w = Some SharedArrayBuffer \<and> startingBest w \<noteq> None
      | _ \<Rightarrow> sharedArray w = (if e then Some SharedArrayBuffer else None)
             \<and> (if e then startingBest w \<noteq> None else startingBest w = Some PosInfinity))"

definition wired :: "'r run \<Rightarrow> bool" where
  "wired s \<longleftrightarrow>
     (sharedBuffer s = None \<longleftrightarrow> \<not> entangledEnabled s) \<and>
     (\<forall>w\<in>set (workers s). wired_worker (entangledEnabled s) w)"

text \<open>A worker whose invocation returns \<open>k\<close>, wherever it is in the script.\<close>

definition const_worker :: "'r \<Rightarrow> 'r worker \<Rightarrow> bool" where
  "const_worker k w \<longleftrightarrow>
     (\<forall>best. snd (fn w best) = Inr k) \<and>
     (case pc w of
        InFn scores out \<Rightarrow> out = Inr k
      | Loaded scaled current rest out \<Rightarrow> out = Inr k
      | Posted out \<Rightarrow> out = Inr k
      | _ \<Rightarrow> True)"

text \<open>A bound on the actions that a started worker still takes, its report included.\<close>

fun steps_left :: "'r pc \<Rightarrow> nat" where
  "steps_left AtStart = 0"
| "steps_left (InFn scores out) = 2 * length scores + 2"
| "steps_left (Loaded scaled current rest out) = 2 * length rest + 3"
| "steps_left (Posted out) = 1"
| "steps_left Exited = 0"



subsection \<open>Inputs used in the evaluations\<close>

text \<open>The class after \<open>QunTime.entangledMode(true)\<close>, and after \<open>QunTime.entangledMode(false)\<close>.\<close>

definition entangled_on :: QunTime where
  "entangled_on = entangledMode (Some True) QunTime_init"

definition entangled_off :: QunTime where
  "entangled_off = entangledMode (Some False) QunTime_init"

text \<open>
  \<^verbatim>\<open>
  (best, publish) => {
    if (best > -1) { publish(-5); publish(-7); return 7; }
    else { publish(-10); return 10; }
  }
  \<close>
\<close>

definition racing_task :: "int task" where
  "racing_task i best =
     (if js_lt (Num (- 1)) best then ([Num (- 5), Num (- 7)], Inr 7)
      else ([Num (- 10)], Inr 10))"

text \<open>\<^verbatim>\<open>(best, publish) => { publish(-3000); return 0; }\<close>\<close>

definition deep_task :: "int task" where
  "deep_task i best = ([Num (- 3000)], Inr 0)"

text \<open>What an execution leaves: the element read as a signed integer, and the promise.\<close>

definition final_of :: "'r run option \<Rightarrow> (int option \<times> (string + 'r list) option) option" where
  "final_of r = map_option (\<lambda>s. (map_option sint (sharedBuffer s), settled s)) r"

text \<open>
  A task that publishes nothing: the invocation of worker 1 throws \<open>boom\<close>, the others
  return the index of their worker.
\<close>

definition failing_task :: "int task" where
  "failing_task i best = ([], if i = 1 then Inl ''boom'' else Inr (int i))"

text \<open>\<^verbatim>\<open>const sumFn = () => 15 + 6;\<close>\<close>

definition sum_task :: "int task" where
  "sum_task i best = ([], Inr 21)"


section \<open>Rounding to a double\<close>






text \<open>
  The model at some doubles whose product with \<open>1e6\<close> is not exact: \<open>0.3\<close> is the double
  \<open>5404319552844595 / 2^54\<close>, and \<open>0.3 * 1e6\<close> is \<open>300000\<close> although the exact product is
  smaller; \<open>-0.000003 * 1e6\<close> is \<open>-3\<close> although the exact product is smaller; and
  \<open>-1 / 1e6\<close> is the double \<open>-4722366482869645 / 2^72\<close>, which is \<open>-0.000001\<close>.
\<close>

lemma scaled_of_examples:
  "scaled_of (Num (5404319552844595 / 18014398509481984)) = Num 300000"
  "\<lfloor>(5404319552844595 / 18014398509481984 :: real) * 1000000\<rfloor> = 299999"
  "scaled_of (Num (- (1770887431076117 / 590295810358705651712))) = Num (- 3)"
  "\<lfloor>(- (1770887431076117 / 590295810358705651712) :: real) * 1000000\<rfloor> = - 4"
  "js_div (Num (- 1)) scale_factor = Num (- (4722366482869645 / 4722366482869645213696))"
  by code_simp+

section \<open>Facts about executions\<close>

subsection \<open>The spawn loop and the launch\<close>

lemma spawn_loop_eq:
  "0 \<le> i \<Longrightarrow> spawn_loop i cnt f wd ws = ws @ map (\<lambda>k. new_Worker (f k) wd) [nat i..<nat cnt]"
proof (induction i cnt f wd ws rule: spawn_loop.induct)
  case (1 i cnt f wd ws)
  show ?case
  proof (cases "i < cnt")
    case True
    with "1.prems" have upt: "[nat i..<nat cnt] = nat i # [nat (i + 1)..<nat cnt]"
      by (simp add: upt_conv_Cons nat_add_distrib)
    from True "1.prems" have "spawn_loop (i + 1) cnt f wd (ws @ [new_Worker (f (nat i)) wd])
        = (ws @ [new_Worker (f (nat i)) wd]) @ map (\<lambda>k. new_Worker (f k) wd) [nat (i + 1)..<nat cnt]"
      by (intro "1.IH") simp_all
    moreover have "spawn_loop i cnt f wd ws = spawn_loop (i + 1) cnt f wd (ws @ [new_Worker (f (nat i)) wd])"
      using True by (subst spawn_loop.simps) simp
    ultimately show ?thesis
      by (simp only: upt append_assoc list.map append_Cons append_Nil)
  next
    case False
    then have "spawn_loop i cnt f wd ws = ws"
      by (subst spawn_loop.simps) simp
    with False show ?thesis by simp
  qed
qed

lemma workers_parallel:
  "workers (parallel f count_arg this) =
     map (\<lambda>k. new_Worker (f k)
                \<lparr>wd_entangled = entangled this,
                 wd_sharedBuffer = (if entangled this then Some SharedArrayBuffer else None)\<rparr>)
       [0..<nat (case count_arg of None \<Rightarrow> 4 | Some c \<Rightarrow> c)]"
  by (simp add: parallel_def Let_def spawn_loop_eq)

lemma count_parallel [simp]:
  "count (parallel f count_arg this) = (case count_arg of None \<Rightarrow> 4 | Some c \<Rightarrow> c)"
  by (simp add: parallel_def Let_def)

lemma entangledEnabled_parallel [simp]:
  "entangledEnabled (parallel f count_arg this) = entangled this"
  by (simp add: parallel_def Let_def)

lemma ToInt32_MAX_SAFE_INTEGER: "ToInt32 MAX_SAFE_INTEGER = - 1"
  by (simp add: MAX_SAFE_INTEGER_def trunc_toward_zero_def)

lemma sharedBuffer_parallel:
  "sharedBuffer (parallel f count_arg this) = (if entangled this then Some (- 1) else None)"
  by (simp add: parallel_def Let_def ToInt32_MAX_SAFE_INTEGER)

subsection \<open>Steps\<close>

lemma worker_step_cases [consumes 1, case_names Start_plain Start_shared Post Skip Load Store]:
  assumes "worker_step w buf = Some (w', buf')"
  obtains
    (Start_plain) "pc w = AtStart" "view_of (workerData w) = None"
      "w' = enter_fn PosInfinity (w\<lparr>sharedArray := None\<rparr>)" "buf' = buf"
  | (Start_shared) r cell where "pc w = AtStart" "view_of (workerData w) = Some r"
      "buf = Some cell"
      "w' = enter_fn (js_div (Atomics_load cell) scale_factor) (w\<lparr>sharedArray := Some r\<rparr>)"
      "buf' = buf"
  | (Post) out where "pc w = InFn [] out" "w' = w\<lparr>pc := Posted out\<rparr>" "buf' = buf"
  | (Skip) score rest out where "pc w = InFn (score # rest) out" "sharedArray w = None"
      "w' = w\<lparr>pc := InFn rest out\<rparr>" "buf' = buf"
  | (Load) score rest out r cell where "pc w = InFn (score # rest) out"
      "sharedArray w = Some r" "buf = Some cell"
      "w' = w\<lparr>pc := Loaded (scaled_of score) (Atomics_load cell) rest out\<rparr>" "buf' = buf"
  | (Store) scaled current rest out cell where "pc w = Loaded scaled current rest out"
      "buf = Some cell" "w' = w\<lparr>pc := InFn rest out\<rparr>"
      "buf' = (if js_lt scaled current then Some (Atomics_store scaled) else Some cell)"
  using assms
  by (auto simp: worker_step_def split: pc.splits option.splits list.splits)

lemma step_cases [consumes 1, case_names Step Deliver EntangledMode]:
  assumes "step a s = Some s'"
  obtains
    (Step) i w' buf' where "a = Step i" "i < length (workers s)"
      "worker_step (workers s ! i) (sharedBuffer s) = Some (w', buf')"
      "s' = s\<lparr>workers := (workers s)[i := w'], sharedBuffer := buf'\<rparr>"
  | (Deliver) i out where "a = Deliver i" "i < length (workers s)"
      "pc (workers s ! i) = Posted out"
      "s' = handle out (s\<lparr>workers := (workers s)[i := (workers s ! i)\<lparr>pc := Exited\<rparr>]\<rparr>)"
  | (EntangledMode) enable where "a = EntangledMode enable" "s' = entangledMode enable s"
  using assms
  by (auto simp: step_def split: action.splits if_splits option.splits pc.splits)

lemma enter_fn_simps [simp]:
  "fn (enter_fn best w) = fn w"
  "workerData (enter_fn best w) = workerData w"
  "sharedArray (enter_fn best w) = sharedArray w"
  "startingBest (enter_fn best w) = Some best"
  "pc (enter_fn best w) = InFn (fst (fn w best)) (snd (fn w best))"
  by (simp_all add: enter_fn_def split: prod.splits)

lemma handle_simps [simp]:
  "workers (handle out s) = workers s"
  "sharedBuffer (handle out s) = sharedBuffer s"
  "count (handle out s) = count s"
  "entangled (handle out s) = entangled s"
  "entangledEnabled (handle out s) = entangledEnabled s"
  by (simp_all add: handle_def on_message_def on_error_def resolve_def reject_def Let_def
      split: sum.splits)

lemma entangledMode_simps [simp]:
  "workers (entangledMode enable s) = workers s"
  "sharedBuffer (entangledMode enable s) = sharedBuffer s"
  "count (entangledMode enable s) = count s"
  "completed (entangledMode enable s) = completed s"
  "results (entangledMode enable s) = results s"
  "promise (entangledMode enable s) = promise s"
  "entangledEnabled (entangledMode enable s) = entangledEnabled s"
  by (simp_all add: entangledMode_def)

lemma worker_step_pc:
  assumes "worker_step w buf = Some (w', buf')"
  shows "pc w \<noteq> Exited" "pc w' \<noteq> Exited" "fn w' = fn w" "workerData w' = workerData w"
  using assms by (cases rule: worker_step_cases; simp)+

lemma worker_step_started:
  assumes "worker_step w buf = Some (w', buf')"
  shows "pc w' \<noteq> AtStart"
  using assms by (cases rule: worker_step_cases) simp_all

lemma step_Step:
  assumes "i < length (workers s)" "worker_step (workers s ! i) (sharedBuffer s) = Some (w', buf')"
  shows "step (Step i) s = Some (s\<lparr>workers := (workers s)[i := w'], sharedBuffer := buf'\<rparr>)"
  using assms by (simp add: step_def)

lemma step_Deliver:
  assumes "i < length (workers s)" "pc (workers s ! i) = Posted out"
  shows "step (Deliver i) s =
     Some (handle out (s\<lparr>workers := (workers s)[i := (workers s ! i)\<lparr>pc := Exited\<rparr>]\<rparr>))"
  using assms by (simp add: step_def)

text \<open>
  The two steps that a worker takes for one call of \<open>maybeUpdateShared\<close> have, when no
  other worker steps between them, the effect of the function \<open>maybeUpdateShared\<close>.
\<close>

lemma maybeUpdateShared_steps:
  assumes "pc w = InFn (score # rest) out" "sharedArray w = Some r"
    and "worker_step w buf = Some (w1, buf1)" "worker_step w1 buf1 = Some (w2, buf2)"
  shows "buf2 = maybeUpdateShared (Some r) score buf \<and> pc w2 = InFn rest out"
  using assms
  by (auto simp: worker_step_def maybeUpdateShared_def Let_def split: option.splits)

lemma maybeUpdateShared_no_view:
  assumes "pc w = InFn (score # rest) out" "sharedArray w = None"
    and "worker_step w buf = Some (w1, buf1)"
  shows "buf1 = maybeUpdateShared None score buf \<and> pc w1 = InFn rest out"
  using assms by (auto simp: worker_step_def maybeUpdateShared_def)

lemma step_no_workers:
  assumes "workers s = []" "by_run a"
  shows "step a s = None"
  using assms by (cases a) (simp_all add: step_def)

lemma step_count:
  assumes "step a s = Some s'"
  shows "count s' = count s" "length (workers s') = length (workers s)"
    "entangledEnabled s' = entangledEnabled s"
  using assms by (cases rule: step_cases; simp)+

subsection \<open>Invariants along an execution\<close>

lemma exec_append:
  "exec (xs @ ys) s = (case exec xs s of None \<Rightarrow> None | Some s' \<Rightarrow> exec ys s')"
  by (induction xs arbitrary: s) (auto split: option.splits)

lemma observed_append:
  "observed (xs @ ys) s =
     (case exec xs s of None \<Rightarrow> observed xs s | Some s' \<Rightarrow> observed xs s @ observed ys s')"
  by (induction xs arbitrary: s) (auto split: option.splits)

lemma exec_invariant:
  assumes "exec sch s = Some s'" and "I s"
    and "\<And>a t t'. I t \<Longrightarrow> step a t = Some t' \<Longrightarrow> I t'"
  shows "I s'"
  using assms(1,2)
proof (induction sch arbitrary: s)
  case Nil
  then show ?case by simp
next
  case (Cons a sch)
  then show ?case by (auto split: option.splits intro: assms(3))
qed

lemma exec_count:
  assumes "exec sch s = Some s'"
  shows "count s' = count s \<and> length (workers s') = length (workers s)
     \<and> entangledEnabled s' = entangledEnabled s"
  by (rule exec_invariant[OF assms, where I = "\<lambda>t. count t = count s
      \<and> length (workers t) = length (workers s) \<and> entangledEnabled t = entangledEnabled s"])
    (simp_all add: step_count)

lemma step_workers_invariant:
  assumes st: "step a s = Some s'"
    and P: "\<forall>w\<in>set (workers s). P w" and Q: "Q (sharedBuffer s)"
    and wstep: "\<And>w buf w' buf'. P w \<Longrightarrow> Q buf \<Longrightarrow> worker_step w buf = Some (w', buf')
       \<Longrightarrow> P w' \<and> Q buf'"
    and exit: "\<And>w out. P w \<Longrightarrow> pc w = Posted out \<Longrightarrow> P (w\<lparr>pc := Exited\<rparr>)"
  shows "(\<forall>w\<in>set (workers s'). P w) \<and> Q (sharedBuffer s')"
  using st
proof (cases rule: step_cases)
  case (Step i w' buf')
  from Step(2) P have "P (workers s ! i)"
    by simp
  from wstep[OF this Q Step(3)] have "P w'" "Q buf'"
    by simp_all
  moreover have "set ((workers s)[i := w']) \<subseteq> insert w' (set (workers s))"
    by (rule set_update_subset_insert)
  ultimately show ?thesis
    using P Step(4) by auto
next
  case (Deliver i out)
  from Deliver(2) P have "P (workers s ! i)"
    by simp
  from exit[OF this Deliver(3)] have "P ((workers s ! i)\<lparr>pc := Exited\<rparr>)" .
  moreover have "set ((workers s)[i := (workers s ! i)\<lparr>pc := Exited\<rparr>])
      \<subseteq> insert ((workers s ! i)\<lparr>pc := Exited\<rparr>) (set (workers s))"
    by (rule set_update_subset_insert)
  ultimately show ?thesis
    using P Q Deliver(4) by auto
next
  case (EntangledMode enable)
  then show ?thesis
    using P Q by simp
qed

lemma exec_workers_invariant:
  assumes ex: "exec sch s = Some s'"
    and P: "\<forall>w\<in>set (workers s). P w" and Q: "Q (sharedBuffer s)"
    and wstep: "\<And>w buf w' buf'. P w \<Longrightarrow> Q buf \<Longrightarrow> worker_step w buf = Some (w', buf')
       \<Longrightarrow> P w' \<and> Q buf'"
    and exit: "\<And>w out. P w \<Longrightarrow> pc w = Posted out \<Longrightarrow> P (w\<lparr>pc := Exited\<rparr>)"
  shows "(\<forall>w\<in>set (workers s'). P w) \<and> Q (sharedBuffer s')"
proof (rule exec_invariant[OF ex, where I = "\<lambda>t. (\<forall>w\<in>set (workers t). P w) \<and> Q (sharedBuffer t)"])
  show "(\<forall>w\<in>set (workers s). P w) \<and> Q (sharedBuffer s)"
    using P Q by simp
next
  fix a t t'
  assume "(\<forall>w\<in>set (workers t). P w) \<and> Q (sharedBuffer t)" "step a t = Some t'"
  then show "(\<forall>w\<in>set (workers t'). P w) \<and> Q (sharedBuffer t')"
    using step_workers_invariant[of a t t' P Q] wstep exit by blast
qed

subsection \<open>The wiring of the workers\<close>

lemma sab_eq [simp]: "r = SharedArrayBuffer"
  by (cases r) simp

lemma view_of_wiring [simp]:
  "view_of \<lparr>wd_entangled = e, wd_sharedBuffer = (if e then Some SharedArrayBuffer else None)\<rparr>
     = (if e then Some SharedArrayBuffer else None)"
  by (simp add: view_of_def)

lemma wired_worker_step:
  assumes "wired_worker e w" "buf = None \<longleftrightarrow> \<not> e" "worker_step w buf = Some (w', buf')"
  shows "wired_worker e w' \<and> (buf' = None \<longleftrightarrow> \<not> e)"
  using assms(3,1,2)
  by (cases rule: worker_step_cases) (auto simp: wired_worker_def view_of_def split: if_splits)

lemma wired_worker_exit:
  assumes "wired_worker e w" "pc w = Posted out"
  shows "wired_worker e (w\<lparr>pc := Exited\<rparr>)"
  using assms by (simp add: wired_worker_def)

lemma wired_exec:
  assumes "exec sch s = Some s'" "wired s"
  shows "wired s'"
proof -
  have e: "entangledEnabled s' = entangledEnabled s"
    using exec_count[OF assms(1)] by simp
  have "(\<forall>w\<in>set (workers s'). wired_worker (entangledEnabled s) w)
      \<and> (sharedBuffer s' = None \<longleftrightarrow> \<not> entangledEnabled s)"
    using assms(2)
    by (intro exec_workers_invariant[OF assms(1), where
          P = "wired_worker (entangledEnabled s)" and Q = "\<lambda>buf. buf = None \<longleftrightarrow> \<not> entangledEnabled s"])
      (auto simp: wired_def wired_worker_exit dest: wired_worker_step)
  with e show ?thesis
    by (simp add: wired_def)
qed

lemma wired_parallel: "wired (parallel f count_arg this)"
  by (auto simp: wired_def workers_parallel sharedBuffer_parallel wired_worker_def new_Worker_def)

subsection \<open>Counting the reports\<close>

lemma exited_iff: "i \<in> exited s \<longleftrightarrow> i < length (workers s) \<and> pc (workers s ! i) = Exited"
  by (auto simp: exited_def)

lemma finite_exited [simp]: "finite (exited s)"
  by (simp add: exited_def)

lemma card_exited_le: "card (exited s) \<le> length (workers s)"
proof -
  have "exited s \<subseteq> {..<length (workers s)}"
    by (auto simp: exited_iff)
  then have "card (exited s) \<le> card {..<length (workers s)}"
    by (intro card_mono) simp_all
  then show ?thesis by simp
qed

lemma card_exited_less:
  assumes "i < length (workers s)" "pc (workers s ! i) \<noteq> Exited"
  shows "card (exited s) < length (workers s)"
proof -
  have "exited s \<subseteq> {..<length (workers s)} - {i}"
    using assms by (auto simp: exited_iff)
  then have "card (exited s) \<le> card ({..<length (workers s)} - {i})"
    by (intro card_mono) simp_all
  with assms(1) show ?thesis by simp
qed

lemma all_exited_card:
  assumes "\<forall>i<length (workers s). pc (workers s ! i) = Exited"
  shows "card (exited s) = length (workers s)"
proof -
  from assms have "exited s = {..<length (workers s)}"
    by (auto simp: exited_iff)
  then show ?thesis by simp
qed

lemma exited_Step:
  assumes "i < length (workers s)" "worker_step (workers s ! i) buf = Some (w', buf')"
  shows "exited (s\<lparr>workers := (workers s)[i := w'], sharedBuffer := buf'\<rparr>) = exited s"
  using assms worker_step_pc(1,2)[OF assms(2)]
  by (auto simp: exited_iff nth_list_update split: if_splits)

lemma exited_Deliver:
  assumes "i < length (workers s)"
  shows "exited (handle out (s\<lparr>workers := (workers s)[i := (workers s ! i)\<lparr>pc := Exited\<rparr>]\<rparr>))
     = insert i (exited s)"
  using assms by (auto simp: exited_iff nth_list_update split: if_splits)

lemma exited_entangledMode [simp]: "exited (entangledMode enable s) = exited s"
  by (simp add: exited_def)

lemma exited_stays:
  assumes "exec sch s = Some s'" "i < length (workers s)" "pc (workers s ! i) = Exited"
  shows "pc (workers s' ! i) = Exited"
proof -
  have "i < length (workers s') \<and> pc (workers s' ! i) = Exited"
  proof (rule exec_invariant[OF assms(1), where I = "\<lambda>t. i < length (workers t) \<and> pc (workers t ! i) = Exited"])
    show "i < length (workers s) \<and> pc (workers s ! i) = Exited"
      using assms by simp
  next
    fix a t t'
    assume I: "i < length (workers t) \<and> pc (workers t ! i) = Exited" and st: "step a t = Some t'"
    from st show "i < length (workers t') \<and> pc (workers t' ! i) = Exited"
    proof (cases rule: step_cases)
      case (Step j w' buf')
      with I worker_step_pc(1)[OF Step(3)] have "j \<noteq> i"
        by auto
      with Step I show ?thesis by simp
    next
      case (Deliver j out)
      with I have "j \<noteq> i"
        by auto
      with Deliver I show ?thesis by simp
    next
      case (EntangledMode enable)
      with I show ?thesis by simp
    qed
  qed
  then show ?thesis by simp
qed

lemma messages_append [simp]: "messages (xs @ ys) = messages xs @ messages ys"
  by (induction xs rule: messages.induct) simp_all

lemma first_error_append:
  "first_error (xs @ ys) = (case first_error xs of Some e \<Rightarrow> Some e | None \<Rightarrow> first_error ys)"
  by (induction xs rule: first_error.induct) simp_all

lemma length_messages: "first_error xs = None \<Longrightarrow> length (messages xs) = length xs"
  by (induction xs rule: first_error.induct) simp_all

lemma tally_step:
  assumes "tally past s" "step a s = Some s'"
  shows "tally (past @ delivered a s) s'"
  using assms(2)
proof (cases rule: step_cases)
  case (Step i w' buf')
  then show ?thesis
    using assms(1) exited_Step[of i s buf' w' buf'] 
    by (simp add: tally_def delivered_def exited_Step)
next
  case (Deliver i out)
  have notin: "i \<notin> exited s"
    using Deliver by (simp add: exited_iff)
  have less: "card (exited s) < length (workers s)"
    using Deliver by (intro card_exited_less[of i]) simp_all
  have card: "card (exited s') = Suc (length past)"
    using Deliver assms(1) notin by (simp add: exited_Deliver tally_def)
  have del: "delivered a s = [out]"
    using Deliver by (simp add: delivered_def)
  from less assms(1) have lt: "length past < nat (count s)"
    by (simp add: tally_def)
  show ?thesis
  proof (cases out)
    case (Inl e)
    with Deliver assms(1) lt card del show ?thesis
      by (auto simp: tally_def handle_def on_error_def reject_def first_error_append
          split: option.splits)
  next
    case (Inr r)
    with Deliver assms(1) lt card del show ?thesis
      by (auto simp: tally_def handle_def on_message_def resolve_def Let_def first_error_append
          length_messages split: option.splits)
  qed
next
  case (EntangledMode enable)
  then show ?thesis
    using assms(1) by (simp add: tally_def delivered_def)
qed

lemma tally_exec:
  "tally past s \<Longrightarrow> exec sch s = Some s' \<Longrightarrow> tally (past @ observed sch s) s'"
proof (induction sch arbitrary: s past)
  case Nil
  then show ?case by simp
next
  case (Cons a sch)
  from Cons.prems(2) obtain t where t: "step a s = Some t" "exec sch t = Some s'"
    by (auto split: option.splits)
  have "tally (past @ delivered a s) t"
    by (rule tally_step[OF Cons.prems(1) t(1)])
  then have "tally ((past @ delivered a s) @ observed sch t) s'"
    by (rule Cons.IH[OF _ t(2)])
  with t(1) show ?case by simp
qed

lemma tally_parallel: "tally [] (parallel f count_arg this)"
proof -
  have "exited (parallel f count_arg this) = {}"
    by (auto simp: exited_iff workers_parallel new_Worker_def)
  moreover have "length (workers (parallel f count_arg this)) = nat (count (parallel f count_arg this))"
    by (simp add: workers_parallel)
  moreover have "completed (parallel f count_arg this) = 0" "results (parallel f count_arg this) = []"
    "promise (parallel f count_arg this) = Pending"
    by (simp_all add: parallel_def Let_def)
  ultimately show ?thesis
    by (simp add: tally_def)
qed

lemma settled_tally:
  assumes "tally past s"
  shows "settled s =
     (case first_error past of
        Some e \<Rightarrow> Some (Inl e)
      | None \<Rightarrow> if past \<noteq> [] \<and> int (length past) = count s
                then Some (Inr (messages past)) else None)"
  using assms by (simp add: tally_def settled_def split: option.splits)

lemma all_exited_settled:
  assumes "tally past s" "\<forall>i<length (workers s). pc (workers s ! i) = Exited" "1 \<le> count s"
  shows "settled s \<noteq> None"
proof -
  from all_exited_card[OF assms(2)] assms(1) have "length past = nat (count s)"
    by (simp add: tally_def)
  with assms(3) have "past \<noteq> [] \<and> int (length past) = count s"
    by auto
  with settled_tally[OF assms(1)] show ?thesis
    by (simp split: option.splits)
qed

lemma tally_length:
  assumes "tally past s"
  shows "length past \<le> nat (count s)"
  using assms card_exited_le[of s] by (simp add: tally_def)

subsection \<open>Every worker can finish\<close>

lemma worker_step_defined:
  assumes "wired_worker e w" "buf = None \<longleftrightarrow> \<not> e"
    and "\<And>out. pc w \<noteq> Posted out" "pc w \<noteq> Exited"
  shows "worker_step w buf \<noteq> None"
  using assms
  by (cases "pc w")
    (auto simp: worker_step_def wired_worker_def view_of_def split: list.splits option.splits)

lemma worker_step_left:
  assumes "worker_step w buf = Some (w', buf')" "pc w \<noteq> AtStart"
  shows "steps_left (pc w') < steps_left (pc w) \<and> pc w' \<noteq> AtStart"
  using assms by (cases rule: worker_step_cases) simp_all

lemma enabled:
  assumes "wired s" "i < length (workers s)" "pc (workers s ! i) \<noteq> Exited"
  shows "step (Step i) s \<noteq> None \<or> step (Deliver i) s \<noteq> None"
proof (cases "\<exists>out. pc (workers s ! i) = Posted out")
  case True
  with assms(2) show ?thesis
    by (auto simp: step_Deliver)
next
  case False
  from assms(1) nth_mem[OF assms(2)] have "wired_worker (entangledEnabled s) (workers s ! i)"
    "sharedBuffer s = None \<longleftrightarrow> \<not> entangledEnabled s"
    by (simp_all add: wired_def)
  from worker_step_defined[OF this] False assms(3)
  obtain w' buf' where "worker_step (workers s ! i) (sharedBuffer s) = Some (w', buf')"
    by auto
  with assms(2) show ?thesis
    by (simp add: step_Step)
qed

lemma quiescent_exited:
  assumes "wired s" "quiescent s" "i < length (workers s)"
  shows "pc (workers s ! i) = Exited"
proof (rule ccontr)
  assume "pc (workers s ! i) \<noteq> Exited"
  from enabled[OF assms(1,3) this] assms(2,3) show False
    by (auto simp: quiescent_def list_all_iff)
qed

lemma finish_started:
  "wired s \<Longrightarrow> i < length (workers s) \<Longrightarrow> pc (workers s ! i) \<noteq> AtStart
   \<Longrightarrow> \<exists>sch' s'. exec sch' s = Some s' \<and> pc (workers s' ! i) = Exited"
proof (induction "steps_left (pc (workers s ! i))" arbitrary: s rule: less_induct)
  case less
  show ?case
  proof (cases "pc (workers s ! i) = Exited")
    case True
    then have "exec [] s = Some s \<and> pc (workers s ! i) = Exited"
      by simp
    then show ?thesis by blast
  next
    case notExited: False
    show ?thesis
    proof (cases "\<exists>out. pc (workers s ! i) = Posted out")
      case True
      then obtain out where "pc (workers s ! i) = Posted out"
        by blast
      define s1 where
        "s1 = handle out (s\<lparr>workers := (workers s)[i := (workers s ! i)\<lparr>pc := Exited\<rparr>]\<rparr>)"
      from \<open>pc (workers s ! i) = Posted out\<close> less.prems(2)
      have "exec [Deliver i] s = Some s1 \<and> pc (workers s1 ! i) = Exited"
        by (simp add: step_Deliver s1_def)
      then show ?thesis by blast
    next
      case False
      from less.prems(1) nth_mem[OF less.prems(2)]
      have "wired_worker (entangledEnabled s) (workers s ! i)"
        "sharedBuffer s = None \<longleftrightarrow> \<not> entangledEnabled s"
        by (simp_all add: wired_def)
      from worker_step_defined[OF this] False notExited
      obtain w' buf' where ws: "worker_step (workers s ! i) (sharedBuffer s) = Some (w', buf')"
        by auto
      define s1 where "s1 = s\<lparr>workers := (workers s)[i := w'], sharedBuffer := buf'\<rparr>"
      have st: "step (Step i) s = Some s1"
        using step_Step[OF less.prems(2) ws] by (simp add: s1_def)
      then have ex1: "exec [Step i] s = Some s1"
        by simp
      have w1: "wired s1"
        by (rule wired_exec[OF ex1 less.prems(1)])
      have i1: "i < length (workers s1)" and pc1: "workers s1 ! i = w'"
        using less.prems(2) by (simp_all add: s1_def)
      from worker_step_left[OF ws less.prems(3)] pc1
      have "steps_left (pc (workers s1 ! i)) < steps_left (pc (workers s ! i))"
        "pc (workers s1 ! i) \<noteq> AtStart"
        by simp_all
      from less.hyps[OF this(1) w1 i1 this(2)]
      obtain sch' s' where "exec sch' s1 = Some s'" "pc (workers s' ! i) = Exited"
        by blast
      with st have "exec (Step i # sch') s = Some s' \<and> pc (workers s' ! i) = Exited"
        by simp
      then show ?thesis by blast
    qed
  qed
qed

lemma finish_worker:
  assumes "wired s" "i < length (workers s)"
  shows "\<exists>sch' s'. exec sch' s = Some s' \<and> pc (workers s' ! i) = Exited"
proof (cases "pc (workers s ! i) = AtStart")
  case False
  then show ?thesis
    by (rule finish_started[OF assms])
next
  case True
  from assms(1) nth_mem[OF assms(2)]
  have "wired_worker (entangledEnabled s) (workers s ! i)"
    "sharedBuffer s = None \<longleftrightarrow> \<not> entangledEnabled s"
    by (simp_all add: wired_def)
  from worker_step_defined[OF this] True
  obtain w' buf' where ws: "worker_step (workers s ! i) (sharedBuffer s) = Some (w', buf')"
    by auto
  define s1 where "s1 = s\<lparr>workers := (workers s)[i := w'], sharedBuffer := buf'\<rparr>"
  have st: "step (Step i) s = Some s1"
    using step_Step[OF assms(2) ws] by (simp add: s1_def)
  then have ex1: "exec [Step i] s = Some s1"
    by simp
  have w1: "wired s1"
    by (rule wired_exec[OF ex1 assms(1)])
  have i1: "i < length (workers s1)" and pc1: "workers s1 ! i = w'"
    using assms(2) by (simp_all add: s1_def)
  from worker_step_started[OF ws] pc1 have "pc (workers s1 ! i) \<noteq> AtStart"
    by simp
  from finish_started[OF w1 i1 this]
  obtain sch' s' where "exec sch' s1 = Some s'" "pc (workers s' ! i) = Exited"
    by blast
  with st have "exec (Step i # sch') s = Some s' \<and> pc (workers s' ! i) = Exited"
    by simp
  then show ?thesis by blast
qed

lemma finish_all:
  "wired s \<Longrightarrow> n \<le> length (workers s)
   \<Longrightarrow> \<exists>sch' s'. exec sch' s = Some s' \<and> (\<forall>j<n. pc (workers s' ! j) = Exited)"
proof (induction n)
  case 0
  have "exec [] s = Some s"
    by simp
  then show ?case by blast
next
  case (Suc n)
  then obtain sch1 s1 where s1: "exec sch1 s = Some s1" "\<forall>j<n. pc (workers s1 ! j) = Exited"
    by auto
  have w1: "wired s1"
    by (rule wired_exec[OF s1(1) Suc.prems(1)])
  have len1: "length (workers s1) = length (workers s)"
    using exec_count[OF s1(1)] by simp
  with Suc.prems(2) have n1: "n < length (workers s1)"
    by simp
  from finish_worker[OF w1 n1]
  obtain sch2 s2 where s2: "exec sch2 s1 = Some s2" "pc (workers s2 ! n) = Exited"
    by blast
  have "pc (workers s2 ! j) = Exited" if "j < Suc n" for j
  proof (cases "j = n")
    case True
    with s2(2) show ?thesis by simp
  next
    case False
    with that have "j < n" by simp
    with s1(2) n1 exited_stays[OF s2(1), of j] show ?thesis
      by simp
  qed
  moreover have "exec (sch1 @ sch2) s = Some s2"
    using s1(1) s2(1) by (simp add: exec_append)
  ultimately show ?case by blast
qed

section \<open>The register\<close>


text \<open>
  C2. With entangled mode on at launch, the element allocated for the run does not hold
  the greatest \<open>Int32\<close>: the assignment of \<open>Number.MAX_SAFE_INTEGER\<close> is reduced modulo
  \<open>2^32\<close> and leaves \<open>-1\<close>, which is what a worker loads before any publish.
\<close>

theorem parallel_register_init_is_minus_one:
  "sharedBuffer (parallel f count_arg entangled_on) = Some (ToInt32 MAX_SAFE_INTEGER)
   \<and> sint (ToInt32 MAX_SAFE_INTEGER) = - 1
   \<and> sint (ToInt32 MAX_SAFE_INTEGER) \<noteq> INT32_MAX
   \<and> Atomics_load (ToInt32 MAX_SAFE_INTEGER) = Num (- 1)"
  by (simp add: sharedBuffer_parallel ToInt32_MAX_SAFE_INTEGER entangled_on_def
      entangledMode_def QunTime_init_def INT32_MAX_def Atomics_load_def)




text \<open>
  When the scaled score is an integer that fits into 32 bits and no other worker steps
  between the load and the store, a call does not raise the register.
\<close>

lemma maybeUpdateShared_in_range:
  assumes "scaled_of score = Num (of_int n)" "- 2147483648 \<le> n"
    and "maybeUpdateShared (Some r) score (Some cell) = Some cell'"
  shows "sint cell' \<le> sint cell \<and> (cell' \<noteq> cell \<longrightarrow> sint cell' = n)"
proof (cases "n < sint cell")
  case True
  then have "real_of_int n < real_of_int (sint cell)"
    using of_int_less_iff[of n "sint cell", where 'a = real] by blast
  then have lt: "js_lt (scaled_of score) (Atomics_load cell)"
    by (simp only: assms(1) Atomics_load_def js_lt.simps)
  have "trunc_toward_zero (real_of_int n) = n"
    by (simp add: trunc_toward_zero_def)
  then have "Atomics_store (scaled_of score) = word_of_int n"
    by (simp only: assms(1) Atomics_store_def ToInt32.simps)
  with lt assms(3) have cell': "cell' = word_of_int n"
    by (simp add: maybeUpdateShared_def del: js_lt.simps)
  have "sint cell < 2147483648"
    using sint_lt[of cell] by simp
  with True assms(2) have "sint (word_of_int n :: int32) = n"
    by (simp add: sint_sbintrunc' signed_take_bit_int_eq_self)
  with True cell' show ?thesis
    by simp
next
  case False
  then have "\<not> real_of_int n < real_of_int (sint cell)"
    using of_int_less_iff[of n "sint cell", where 'a = real] by blast
  then have "\<not> js_lt (scaled_of score) (Atomics_load cell)"
    by (simp only: assms(1) Atomics_load_def js_lt.simps simp_thms)
  with assms(3) show ?thesis
    by (simp add: maybeUpdateShared_def del: js_lt.simps)
qed

text \<open>
  C5. The register is not monotonic: from its initial value \<open>-1\<close>, the call
  \<open>maybeUpdateShared(-3000)\<close> passes the test \<open>scaled < current\<close> with
  \<open>scaled = -3000000000\<close>, and \<open>Atomics.store\<close> reduces that modulo \<open>2^32\<close> to
  \<open>1294967296\<close>, which is greater than \<open>-1\<close>. The same happens in a run of one worker.
\<close>

theorem maybeUpdateShared_store_wraps_upward:
  "maybeUpdateShared (Some SharedArrayBuffer) (Num (- 3000)) (Some (- 1)) = Some 1294967296
   \<and> sint (- 1 :: int32) < sint (1294967296 :: int32)
   \<and> final_of (exec [Step 0] (parallel deep_task (Some 1) entangled_on)) = Some (Some (- 1), None)
   \<and> final_of (exec [Step 0, Step 0, Step 0] (parallel deep_task (Some 1) entangled_on))
       = Some (Some 1294967296, None)"
proof -
  have "maybeUpdateShared (Some SharedArrayBuffer) (Num (- 3000)) (Some (- 1)) = Some 1294967296"
    by code_simp
  moreover have "sint (- 1 :: int32) < sint (1294967296 :: int32)"
    by simp
  moreover have "final_of (exec [Step 0] (parallel deep_task (Some 1) entangled_on))
      = Some (Some (- 1), None)"
    by code_simp
  moreover have "final_of (exec [Step 0, Step 0, Step 0] (parallel deep_task (Some 1) entangled_on))
      = Some (Some 1294967296, None)"
    by code_simp
  ultimately show ?thesis by blast
qed

subsection \<open>Scores that never reach the register\<close>








subsection \<open>What a worker starts with\<close>

lemma startingBest_kept_step:
  assumes "step a s = Some s'" "i < length (workers s)" "pc (workers s ! i) \<noteq> AtStart"
  shows "i < length (workers s') \<and> pc (workers s' ! i) \<noteq> AtStart
     \<and> startingBest (workers s' ! i) = startingBest (workers s ! i)"
  using assms(1)
proof (cases rule: step_cases)
  case (Step j w' buf')
  show ?thesis
  proof (cases "j = i")
    case True
    from Step(3) assms(3) True have "pc w' \<noteq> AtStart \<and> startingBest w' = startingBest (workers s ! i)"
      by (cases rule: worker_step_cases) simp_all
    with Step True assms(2) show ?thesis by simp
  next
    case False
    with Step assms show ?thesis by simp
  qed
next
  case (Deliver j out)
  with assms show ?thesis
    by (cases "j = i") simp_all
next
  case (EntangledMode enable)
  with assms show ?thesis by simp
qed

lemma startingBest_kept:
  assumes "exec sch s = Some s'" "i < length (workers s)" "pc (workers s ! i) \<noteq> AtStart"
  shows "startingBest (workers s' ! i) = startingBest (workers s ! i)"
proof -
  have "i < length (workers s') \<and> pc (workers s' ! i) \<noteq> AtStart
     \<and> startingBest (workers s' ! i) = startingBest (workers s ! i)"
    by (rule exec_invariant[OF assms(1), where I = "\<lambda>t. i < length (workers t)
        \<and> pc (workers t ! i) \<noteq> AtStart \<and> startingBest (workers t ! i) = startingBest (workers s ! i)"])
      (use assms(2,3) in \<open>auto dest: startingBest_kept_step\<close>)
  then show ?thesis by simp
qed

text \<open>The invocation that a worker runs is the task's invocation for its index.\<close>

lemma fn_kept_step:
  assumes "step a s = Some s'" "i < length (workers s)"
  shows "i < length (workers s') \<and> fn (workers s' ! i) = fn (workers s ! i)"
  using assms(1)
proof (cases rule: step_cases)
  case (Step j w' buf')
  with assms(2) worker_step_pc(3)[OF Step(3)] show ?thesis
    by (cases "j = i") simp_all
next
  case (Deliver j out)
  with assms(2) show ?thesis
    by (cases "j = i") simp_all
next
  case (EntangledMode enable)
  with assms(2) show ?thesis by simp
qed

lemma fn_parallel:
  assumes "exec sch (parallel f count_arg this) = Some s" "i < length (workers s)"
  shows "fn (workers s ! i) = f i"
proof -
  let ?run = "parallel f count_arg this"
  have len: "length (workers s) = length (workers ?run)"
    using exec_count[OF assms(1)] by simp
  with assms(2) have i: "i < length (workers ?run)"
    by simp
  then have start: "fn (workers ?run ! i) = f i"
    by (simp add: workers_parallel new_Worker_def)
  have "i < length (workers s) \<and> fn (workers s ! i) = fn (workers ?run ! i)"
    by (rule exec_invariant[OF assms(1), where I = "\<lambda>t. i < length (workers t)
        \<and> fn (workers t ! i) = fn (workers ?run ! i)"])
      (use i in \<open>auto dest: fn_kept_step\<close>)
  with start show ?thesis by simp
qed

lemma startingBest_at_start:
  assumes "wired s" "i < length (workers s)" "pc (workers s ! i) = AtStart"
    "step (Step i) s = Some s'"
  shows "pc (workers s' ! i) \<noteq> AtStart \<and> i < length (workers s') \<and>
     startingBest (workers s' ! i) =
       Some (case sharedBuffer s of
               Some cell \<Rightarrow> js_div (Atomics_load cell) scale_factor
             | None \<Rightarrow> PosInfinity)"
  using assms(4)
proof (cases rule: step_cases)
  case (Step j w' buf')
  then have j: "j = i" by simp
  from assms(1) nth_mem[OF assms(2)] have ww: "wired_worker (entangledEnabled s) (workers s ! i)"
    and buf: "sharedBuffer s = None \<longleftrightarrow> \<not> entangledEnabled s"
    by (simp_all add: wired_def)
  from Step(3)[unfolded j] assms(3) ww buf
  have "pc w' \<noteq> AtStart \<and> startingBest w' =
       Some (case sharedBuffer s of
               Some cell \<Rightarrow> js_div (Atomics_load cell) scale_factor
             | None \<Rightarrow> PosInfinity)"
    by (cases rule: worker_step_cases) (auto simp: wired_worker_def view_of_def split: if_splits)
  with Step j assms(2) show ?thesis by simp
qed simp_all

lemma fn_called_at_start:
  assumes "wired s" "i < length (workers s)" "pc (workers s ! i) = AtStart"
    "step (Step i) s = Some s'"
  shows "pc (workers s' ! i) =
     InFn (fst (fn (workers s ! i)
                 (case sharedBuffer s of
                    Some cell \<Rightarrow> js_div (Atomics_load cell) scale_factor
                  | None \<Rightarrow> PosInfinity)))
          (snd (fn (workers s ! i)
                 (case sharedBuffer s of
                    Some cell \<Rightarrow> js_div (Atomics_load cell) scale_factor
                  | None \<Rightarrow> PosInfinity)))"
  using assms(4)
proof (cases rule: step_cases)
  case (Step j w' buf')
  then have j: "j = i" by simp
  from assms(1) nth_mem[OF assms(2)] have ww: "wired_worker (entangledEnabled s) (workers s ! i)"
    and buf: "sharedBuffer s = None \<longleftrightarrow> \<not> entangledEnabled s"
    by (simp_all add: wired_def)
  from Step(3)[unfolded j] assms(3) ww buf
  have "pc w' =
     InFn (fst (fn (workers s ! i)
                 (case sharedBuffer s of
                    Some cell \<Rightarrow> js_div (Atomics_load cell) scale_factor
                  | None \<Rightarrow> PosInfinity)))
          (snd (fn (workers s ! i)
                 (case sharedBuffer s of
                    Some cell \<Rightarrow> js_div (Atomics_load cell) scale_factor
                  | None \<Rightarrow> PosInfinity)))"
    by (cases rule: worker_step_cases) (auto simp: wired_worker_def view_of_def split: if_splits)
  with Step j assms(2) show ?thesis by simp
qed simp_all

text \<open>
  C4. In every state of a run, a worker that has not started has no \<open>startingBest\<close>;
  the step that starts it sets \<open>startingBest\<close> to the element of the buffer at that
  moment divided by \<open>1e6\<close> if the run was launched with entangled mode on, and to
  \<open>Infinity\<close> if not, and calls the task with this value: the worker is then inside the
  invocation that the task \<open>f\<close> makes of it, with the scores to publish and the outcome
  that \<open>f\<close> gives for this value. No later step of any worker changes \<open>startingBest\<close>.
  With entangled mode off, every worker that has started has \<open>startingBest = Infinity\<close>.
\<close>

theorem startingBest_read_once:
  assumes "exec sch (parallel f count_arg this) = Some s"
  shows "(sharedBuffer s = None \<longleftrightarrow> \<not> entangled this)
     \<and> (\<forall>i s1 sch' s2.
          i < length (workers s) \<and> pc (workers s ! i) = AtStart
          \<and> step (Step i) s = Some s1 \<and> exec sch' s1 = Some s2 \<longrightarrow>
          startingBest (workers s ! i) = None \<and>
          startingBest (workers s2 ! i) =
            Some (case sharedBuffer s of
                    Some cell \<Rightarrow> js_div (Atomics_load cell) scale_factor
                  | None \<Rightarrow> PosInfinity) \<and>
          pc (workers s1 ! i) =
            InFn (fst (f i (case sharedBuffer s of
                              Some cell \<Rightarrow> js_div (Atomics_load cell) scale_factor
                            | None \<Rightarrow> PosInfinity)))
                 (snd (f i (case sharedBuffer s of
                              Some cell \<Rightarrow> js_div (Atomics_load cell) scale_factor
                            | None \<Rightarrow> PosInfinity))))
     \<and> (\<not> entangled this \<longrightarrow>
          (\<forall>w\<in>set (workers s). pc w = AtStart \<or> startingBest w = Some PosInfinity))"
proof -
  have w: "wired s"
    by (rule wired_exec[OF assms wired_parallel])
  have e: "entangledEnabled s = entangled this"
    using exec_count[OF assms] by simp
  have buf: "sharedBuffer s = None \<longleftrightarrow> \<not> entangled this"
    using w e by (simp add: wired_def)
  have once: "startingBest (workers s ! i) = None \<and>
          startingBest (workers s2 ! i) =
            Some (case sharedBuffer s of
                    Some cell \<Rightarrow> js_div (Atomics_load cell) scale_factor
                  | None \<Rightarrow> PosInfinity) \<and>
          pc (workers s1 ! i) =
            InFn (fst (f i (case sharedBuffer s of
                              Some cell \<Rightarrow> js_div (Atomics_load cell) scale_factor
                            | None \<Rightarrow> PosInfinity)))
                 (snd (f i (case sharedBuffer s of
                              Some cell \<Rightarrow> js_div (Atomics_load cell) scale_factor
                            | None \<Rightarrow> PosInfinity)))"
    if "i < length (workers s)" "pc (workers s ! i) = AtStart"
      "step (Step i) s = Some s1" "exec sch' s1 = Some s2" for i s1 sch' s2
  proof -
    from w nth_mem[OF that(1)] have "wired_worker (entangledEnabled s) (workers s ! i)"
      by (simp add: wired_def)
    with that(2) have "startingBest (workers s ! i) = None"
      by (simp add: wired_worker_def)
    moreover from startingBest_at_start[OF w that(1,2,3)] startingBest_kept[OF that(4), of i]
    have "startingBest (workers s2 ! i) =
            Some (case sharedBuffer s of
                    Some cell \<Rightarrow> js_div (Atomics_load cell) scale_factor
                  | None \<Rightarrow> PosInfinity)"
      by simp
    moreover from fn_called_at_start[OF w that(1,2,3)] fn_parallel[OF assms that(1)]
    have "pc (workers s1 ! i) =
            InFn (fst (f i (case sharedBuffer s of
                              Some cell \<Rightarrow> js_div (Atomics_load cell) scale_factor
                            | None \<Rightarrow> PosInfinity)))
                 (snd (f i (case sharedBuffer s of
                              Some cell \<Rightarrow> js_div (Atomics_load cell) scale_factor
                            | None \<Rightarrow> PosInfinity)))"
      by simp
    ultimately show ?thesis by simp
  qed
  have off: "pc w = AtStart \<or> startingBest w = Some PosInfinity"
    if "\<not> entangled this" "w \<in> set (workers s)" for w
  proof -
    from w that(2) e that(1) have "wired_worker False w"
      by (simp add: wired_def)
    then show ?thesis
      by (cases "pc w") (simp_all add: wired_worker_def)
  qed
  from buf once off show ?thesis by blast
qed

text \<open>
  With entangled mode on, worker 1 starts after worker 0 has stored \<open>-5000000\<close>, gets
  \<open>-5\<close> and is inside the invocation that publishes \<open>-10\<close> and returns \<open>10\<close>; with
  entangled mode off it gets \<open>Infinity\<close>.
\<close>

theorem startingBest_read_once_witness:
  "exec [Step 0, Step 0, Step 0] (parallel racing_task (Some 2) entangled_on) \<noteq> None
   \<and> map_option sint (sharedBuffer (the (exec [Step 0, Step 0, Step 0]
        (parallel racing_task (Some 2) entangled_on)))) = Some (- 5000000)
   \<and> startingBest (workers (the (exec [Step 0, Step 0, Step 0, Step 1, Step 1, Step 1]
        (parallel racing_task (Some 2) entangled_on))) ! 1) = Some (Num (- 5))
   \<and> pc (workers (the (exec [Step 0, Step 0, Step 0, Step 1]
        (parallel racing_task (Some 2) entangled_on))) ! 1) = InFn [Num (- 10)] (Inr 10)
   \<and> exec [Step 0, Step 1, Step 0] (parallel racing_task (Some 2) entangled_off) \<noteq> None
   \<and> startingBest (workers (the (exec [Step 0, Step 1, Step 0]
        (parallel racing_task (Some 2) entangled_off))) ! 1) = Some PosInfinity"
proof -
  let ?sch = "[Step 0, Step 0, Step 0]"
  let ?run = "parallel racing_task (Some 2) entangled_on"
  let ?off = "parallel racing_task (Some 2) entangled_off"
  have ne: "exec ?sch ?run \<noteq> None"
    by code_simp
  then obtain s where s: "exec ?sch ?run = Some s"
    by blast
  have "sharedBuffer (the (exec ?sch ?run)) = Some (- 5000000)"
    "length (workers (the (exec ?sch ?run))) = 2"
    "pc (workers (the (exec ?sch ?run)) ! 1) = AtStart"
    "step (Step 1) (the (exec ?sch ?run)) \<noteq> None"
    by code_simp+
  with s have buf: "sharedBuffer s = Some (- 5000000)" and len: "1 < length (workers s)"
    and at: "pc (workers s ! 1) = AtStart" and "step (Step 1) s \<noteq> None"
    by simp_all
  then obtain s1 where s1: "step (Step 1) s = Some s1"
    by blast
  have e1: "exec [Step 1] s = Some s1"
    using s1 by simp
  have split: "exec (?sch @ [Step 1] @ [Step 1, Step 1]) ?run = exec [Step 1, Step 1] s1"
    by (simp only: exec_append s e1 option.case)
  have "exec (?sch @ [Step 1] @ [Step 1, Step 1]) ?run \<noteq> None"
    by code_simp
  with split obtain s2 where s2: "exec [Step 1, Step 1] s1 = Some s2"
    by auto
  have five: "js_div (Atomics_load (- 5000000)) scale_factor = Num (- 5)"
    by code_simp
  from startingBest_read_once[OF s] len at s1 s2
  have "startingBest (workers s2 ! 1) =
      Some (case sharedBuffer s of
                    Some cell \<Rightarrow> js_div (Atomics_load cell) scale_factor
                  | None \<Rightarrow> PosInfinity)"
    and "pc (workers s1 ! 1) =
      InFn (fst (racing_task 1 (case sharedBuffer s of
                    Some cell \<Rightarrow> js_div (Atomics_load cell) scale_factor
                  | None \<Rightarrow> PosInfinity)))
           (snd (racing_task 1 (case sharedBuffer s of
                    Some cell \<Rightarrow> js_div (Atomics_load cell) scale_factor
                  | None \<Rightarrow> PosInfinity)))"
    by blast+
  with five buf have on: "startingBest (workers s2 ! 1) = Some (Num (- 5))"
    and called: "pc (workers s1 ! 1) = InFn [Num (- 10)] (Inr 10)"
    by (simp_all add: racing_task_def)
  have "exec (?sch @ [Step 1]) ?run = Some s1"
    by (simp only: exec_append s e1 option.case)
  then have started: "exec [Step 0, Step 0, Step 0, Step 1] ?run = Some s1"
    by simp
  have "[Step 0, Step 0, Step 0, Step 1, Step 1, Step 1] = ?sch @ [Step 1] @ [Step 1, Step 1]"
    by simp
  with split s2 have all: "exec [Step 0, Step 0, Step 0, Step 1, Step 1, Step 1] ?run = Some s2"
    by (simp only:)
  have ne': "exec [Step 0, Step 1, Step 0] ?off \<noteq> None"
    by code_simp
  then obtain t where t: "exec [Step 0, Step 1, Step 0] ?off = Some t"
    by blast
  have "length (workers (the (exec [Step 0, Step 1, Step 0] ?off))) = 2"
    "pc (workers (the (exec [Step 0, Step 1, Step 0] ?off)) ! 1) \<noteq> AtStart"
    by code_simp+
  with t have "workers t ! 1 \<in> set (workers t)" "pc (workers t ! 1) \<noteq> AtStart"
    by simp_all
  moreover have "\<not> entangled entangled_off"
    by (simp add: entangled_off_def entangledMode_def QunTime_init_def)
  ultimately have off: "startingBest (workers t ! 1) = Some PosInfinity"
    using startingBest_read_once[OF t] by blast
  from ne buf s on all called started ne' off t show ?thesis
    by simp
qed



section \<open>Interleavings of \<open>maybeUpdateShared\<close>\<close>

text \<open>
  C1. \<open>maybeUpdateShared\<close> is an \<open>Atomics.load\<close> followed by an \<open>Atomics.store\<close>, and a
  store of another worker between the two is lost. Two workers run \<open>racing_task\<close>:
  worker 0 starts first and publishes \<open>-5\<close>, then worker 1 starts; worker 0 loads for its
  second score \<open>-7\<close>, worker 1 loads and stores \<open>-10\<close>, and only then worker 0 stores. The
  run ends with the register at \<open>-7000000\<close>, above the least published score. With the
  same workers one after the other it ends at \<open>-10000000\<close>.
\<close>

theorem maybeUpdateShared_lost_update:
  "final_of (exec [Step 0, Step 0, Step 0, Step 1, Step 0, Step 1, Step 1, Step 0,
                   Step 0, Step 1, Deliver 0, Deliver 1]
               (parallel racing_task (Some 2) entangled_on))
     = Some (Some (- 7000000), Some (Inr [7, 10]))
   \<and> final_of (exec [Step 0, Step 0, Step 0, Step 1, Step 0, Step 0, Step 1, Step 1,
                     Step 0, Step 1, Deliver 0, Deliver 1]
               (parallel racing_task (Some 2) entangled_on))
     = Some (Some (- 10000000), Some (Inr [7, 10]))"
proof -
  have "final_of (exec [Step 0, Step 0, Step 0, Step 1, Step 0, Step 1, Step 1, Step 0,
                   Step 0, Step 1, Deliver 0, Deliver 1]
               (parallel racing_task (Some 2) entangled_on))
     = Some (Some (- 7000000), Some (Inr [7, 10]))"
    by code_simp
  moreover have "final_of (exec [Step 0, Step 0, Step 0, Step 1, Step 0, Step 0, Step 1, Step 1,
                     Step 0, Step 1, Deliver 0, Deliver 1]
               (parallel racing_task (Some 2) entangled_on))
     = Some (Some (- 10000000), Some (Inr [7, 10]))"
    by code_simp
  ultimately show ?thesis by blast
qed

section \<open>The outcome of a run\<close>

text \<open>
  C8. The outcome of a run is a function of the reports that the handlers have seen, in
  the order in which they saw them. If one of them is an error, the promise is rejected
  with the first one. Otherwise it is fulfilled once \<open>count\<close> messages have been seen,
  with exactly these \<open>count\<close> results, and it is pending until then. There are never
  more than \<open>count\<close> reports, a fulfilled promise has \<open>count\<close> results and no error
  was seen, and a settled promise never changes. For \<open>count \<ge> 1\<close> the promise is settled
  as soon as no worker has a step left and no report waits, and from every state an
  execution leads there.
\<close>

theorem failure_policy:
  assumes "exec sch (parallel f (Some c) this) = Some s"
  shows "settled s =
       (case first_error (observed sch (parallel f (Some c) this)) of
          Some e \<Rightarrow> Some (Inl e)
        | None \<Rightarrow>
            if observed sch (parallel f (Some c) this) \<noteq> []
               \<and> int (length (observed sch (parallel f (Some c) this))) = c
            then Some (Inr (messages (observed sch (parallel f (Some c) this))))
            else None)
     \<and> length (observed sch (parallel f (Some c) this)) \<le> nat c
     \<and> (\<forall>rs. settled s = Some (Inr rs) \<longrightarrow>
           int (length rs) = c \<and> first_error (observed sch (parallel f (Some c) this)) = None)
     \<and> (\<forall>sch' s'. exec sch' s = Some s' \<and> settled s \<noteq> None \<longrightarrow> settled s' = settled s)
     \<and> (1 \<le> c \<longrightarrow>
           (quiescent s \<longrightarrow> settled s \<noteq> None)
           \<and> (\<exists>sch' s'. exec sch' s = Some s' \<and> settled s' \<noteq> None))"
proof -
  let ?run = "parallel f (Some c) this"
  let ?obs = "observed sch ?run"
  have t: "tally ?obs s"
    using tally_exec[OF tally_parallel assms] by simp
  have w: "wired s"
    by (rule wired_exec[OF assms wired_parallel])
  have cnt: "count s = c"
    using exec_count[OF assms] by simp
  have char: "settled s =
       (case first_error ?obs of
          Some e \<Rightarrow> Some (Inl e)
        | None \<Rightarrow> if ?obs \<noteq> [] \<and> int (length ?obs) = c
                  then Some (Inr (messages ?obs)) else None)"
    using settled_tally[OF t] cnt by simp
  have len: "length ?obs \<le> nat c"
    using tally_length[OF t] cnt by simp
  have full: "int (length rs) = c \<and> first_error ?obs = None" if "settled s = Some (Inr rs)" for rs
    using that char by (auto simp: length_messages split: option.splits if_splits)
  have stable: "settled s' = settled s" if "exec sch' s = Some s'" "settled s \<noteq> None" for sch' s'
  proof -
    have t': "tally (?obs @ observed sch' s) s'"
      by (rule tally_exec[OF t that(1)])
    have cnt': "count s' = c"
      using exec_count[OF that(1)] cnt by simp
    have len': "length (?obs @ observed sch' s) \<le> nat c"
      using tally_length[OF t'] cnt' by simp
    show ?thesis
    proof (cases "first_error ?obs")
      case (Some e)
      then show ?thesis
        using settled_tally[OF t'] char by (simp add: first_error_append)
    next
      case None
      with that(2) char have "?obs \<noteq> []" "int (length ?obs) = c"
        by (auto split: if_splits)
      with len' have "length (observed sch' s) = 0"
        by (simp only: length_append)
      then have "observed sch' s = []"
        by simp
      then show ?thesis
        using settled_tally[OF t'] char cnt' None by (simp add: first_error_append)
    qed
  qed
  have quiet: "settled s \<noteq> None" if "1 \<le> c" "quiescent s"
  proof -
    have "\<forall>i<length (workers s). pc (workers s ! i) = Exited"
      using quiescent_exited[OF w that(2)] by simp
    then show ?thesis
      using all_exited_settled[OF t] that(1) cnt by simp
  qed
  have live: "\<exists>sch' s'. exec sch' s = Some s' \<and> settled s' \<noteq> None" if "1 \<le> c"
  proof -
    from finish_all[OF w order_refl]
    obtain sch' s' where s': "exec sch' s = Some s'"
      "\<forall>j<length (workers s). pc (workers s' ! j) = Exited"
      by blast
    have same: "length (workers s') = length (workers s)" "count s' = c"
      using exec_count[OF s'(1)] cnt by simp_all
    have "tally (?obs @ observed sch' s) s'"
      by (rule tally_exec[OF t s'(1)])
    from all_exited_settled[OF this] s'(2) same that have "settled s' \<noteq> None"
      by simp
    with s'(1) show ?thesis by blast
  qed
  from char len full stable quiet live show ?thesis by blast
qed

text \<open>
  A run of three workers in which worker 1 throws: the handlers see the message of worker
  0, then the error, then the message of worker 2, and the promise is rejected with the
  error.
\<close>

theorem failure_policy_witness:
  "exec [Step 0, Step 0, Deliver 0, Step 1, Step 1, Deliver 1, Step 2, Step 2, Deliver 2]
      (parallel failing_task (Some 3) entangled_off) \<noteq> None
   \<and> observed [Step 0, Step 0, Deliver 0, Step 1, Step 1, Deliver 1, Step 2, Step 2, Deliver 2]
      (parallel failing_task (Some 3) entangled_off) = [Inr 0, Inl ''boom'', Inr 2]
   \<and> settled (the (exec
        [Step 0, Step 0, Deliver 0, Step 1, Step 1, Deliver 1, Step 2, Step 2, Deliver 2]
        (parallel failing_task (Some 3) entangled_off))) = Some (Inl ''boom'')"
proof -
  let ?sch = "[Step 0, Step 0, Deliver 0, Step 1, Step 1, Deliver 1, Step 2, Step 2, Deliver 2]"
  let ?run = "parallel failing_task (Some 3) entangled_off"
  have ne: "exec ?sch ?run \<noteq> None"
    by code_simp
  then obtain s where s: "exec ?sch ?run = Some s"
    by blast
  have obs: "observed ?sch ?run = [Inr 0, Inl ''boom'', Inr 2]"
    by code_simp
  from failure_policy[OF s] obs have "settled s = Some (Inl ''boom'')"
    by simp
  with ne obs s show ?thesis by simp
qed

subsection \<open>A task that returns a constant\<close>

lemma const_worker_step:
  assumes "const_worker k w" "worker_step w buf = Some (w', buf')"
  shows "const_worker k w'"
  using assms(2,1) by (cases rule: worker_step_cases) (auto simp: const_worker_def)

lemma const_worker_exit:
  assumes "const_worker k w"
  shows "const_worker k (w\<lparr>pc := Exited\<rparr>)"
  using assms by (simp add: const_worker_def)

lemma const_delivered:
  assumes "\<forall>w\<in>set (workers s). const_worker k w"
  shows "set (delivered a s) \<subseteq> {Inr k}"
proof (cases a)
  case (Deliver i)
  show ?thesis
  proof (cases "i < length (workers s)")
    case True
    with assms have "const_worker k (workers s ! i)"
      by simp
    with Deliver True show ?thesis
      by (auto simp: delivered_def const_worker_def split: pc.splits)
  next
    case False
    with Deliver show ?thesis by (simp add: delivered_def)
  qed
qed (simp_all add: delivered_def)

lemma const_observed:
  "\<forall>w\<in>set (workers s). const_worker k w \<Longrightarrow> exec sch s = Some s'
   \<Longrightarrow> set (observed sch s) \<subseteq> {Inr k}"
proof (induction sch arbitrary: s)
  case Nil
  then show ?case by simp
next
  case (Cons a sch)
  from Cons.prems(2) obtain t where t: "step a s = Some t" "exec sch t = Some s'"
    by (auto split: option.splits)
  have "(\<forall>w\<in>set (workers t). const_worker k w) \<and> True"
    by (rule step_workers_invariant[OF t(1) Cons.prems(1), where Q = "\<lambda>_. True"])
      (auto intro: const_worker_step const_worker_exit)
  then have "set (observed sch t) \<subseteq> {Inr k}"
    using Cons.IH t(2) by blast
  with const_delivered[OF Cons.prems(1), of a] t(1) show ?case
    by simp
qed

lemma messages_const:
  "set outs \<subseteq> {Inr k} \<Longrightarrow> messages outs = replicate (length outs) k \<and> first_error outs = None"
  by (induction outs) auto

lemma const_parallel:
  assumes "\<And>i best. snd (f i best) = Inr k"
  shows "\<forall>w\<in>set (workers (parallel f count_arg this)). const_worker k w"
  using assms by (auto simp: workers_parallel const_worker_def new_Worker_def)

lemma settled_constant:
  assumes const: "\<And>i best. snd (f i best) = Inr k"
    and ex: "exec sch (parallel f (Some c) this) = Some s"
  shows "settled s =
     (if 1 \<le> c \<and> card (exited s) = nat c then Some (Inr (replicate (nat c) k)) else None)"
proof -
  let ?run = "parallel f (Some c) this"
  let ?obs = "observed sch ?run"
  have t: "tally ?obs s"
    using tally_exec[OF tally_parallel ex] by simp
  have cnt: "count s = c"
    using exec_count[OF ex] by simp
  have "\<forall>w\<in>set (workers ?run). const_worker k w"
    using const by (rule const_parallel)
  then have "set ?obs \<subseteq> {Inr k}"
    using ex by (rule const_observed)
  then have "messages ?obs = replicate (length ?obs) k \<and> first_error ?obs = None"
    by (rule messages_const)
  then have m: "messages ?obs = replicate (length ?obs) k" "first_error ?obs = None"
    by simp_all
  have card: "card (exited s) = length ?obs"
    using t by (simp add: tally_def)
  define n where "n = length ?obs"
  have "?obs \<noteq> [] \<longleftrightarrow> 0 < n"
    by (simp add: n_def)
  then have iff: "(?obs \<noteq> [] \<and> int n = c) \<longleftrightarrow> (1 \<le> c \<and> n = nat c)"
    by linarith
  have "settled s = (if ?obs \<noteq> [] \<and> int n = c then Some (Inr (replicate n k)) else None)"
    using settled_tally[OF t] by (simp only: m cnt n_def option.case)
  also have "\<dots> = (if 1 \<le> c \<and> n = nat c then Some (Inr (replicate (nat c) k)) else None)"
    by (simp only: iff) simp
  finally show ?thesis
    by (simp only: card n_def)
qed

text \<open>
  C7. Let \<open>count \<ge> 1\<close> and let every invocation of the task return the constant \<open>k\<close>,
  whatever it publishes. In every state of the run the promise is pending or fulfilled
  with \<open>count\<close> copies of \<open>k\<close>. It is fulfilled so as soon as no worker has a step left
  and no report waits, and from every state an execution leads there. An omitted
  \<open>count\<close> is 4.
\<close>

theorem constant_task_resolves:
  assumes "1 \<le> c" and "\<And>i best. snd (f i best) = Inr k"
    and "exec sch (parallel f (Some c) this) = Some s"
  shows "(settled s = None \<or> settled s = Some (Inr (replicate (nat c) k)))
     \<and> (quiescent s \<longrightarrow> settled s = Some (Inr (replicate (nat c) k)))
     \<and> (\<exists>sch' s'. exec sch' s = Some s' \<and> settled s' = Some (Inr (replicate (nat c) k)))
     \<and> length (replicate (nat c) k) = nat c
     \<and> parallel f None this = parallel f (Some 4) this"
proof -
  let ?run = "parallel f (Some c) this"
  note char = settled_constant[of f k, OF assms(2)]
  have w: "wired s"
    by (rule wired_exec[OF assms(3) wired_parallel])
  have len: "length (workers s) = nat c"
    using exec_count[OF assms(3)] by (simp add: workers_parallel)
  have 1: "settled s = None \<or> settled s = Some (Inr (replicate (nat c) k))"
    using char[OF assms(3)] by simp
  have 2: "settled s = Some (Inr (replicate (nat c) k))" if "quiescent s"
  proof -
    have "\<forall>i<length (workers s). pc (workers s ! i) = Exited"
      using quiescent_exited[OF w that] by simp
    from all_exited_card[OF this] len assms(1) char[OF assms(3)] show ?thesis
      by simp
  qed
  have 3: "\<exists>sch' s'. exec sch' s = Some s' \<and> settled s' = Some (Inr (replicate (nat c) k))"
  proof -
    from finish_all[OF w order_refl]
    obtain sch' s' where s': "exec sch' s = Some s'"
      "\<forall>j<length (workers s). pc (workers s' ! j) = Exited"
      by blast
    have len': "length (workers s') = length (workers s)"
      using exec_count[OF s'(1)] by simp
    with s'(2) have "\<forall>i<length (workers s'). pc (workers s' ! i) = Exited"
      by simp
    from all_exited_card[OF this] have card: "card (exited s') = nat c"
      using len len' by simp
    have "exec (sch @ sch') ?run = Some s'"
      using assms(3) s'(1) by (simp add: exec_append)
    from char[OF this] card assms(1) have "settled s' = Some (Inr (replicate (nat c) k))"
      by simp
    with s'(1) show ?thesis by blast
  qed
  have 4: "parallel f None this = parallel f (Some 4) this"
    by (simp add: parallel_def)
  from 1 2 3 4 show ?thesis by simp
qed

text \<open>
  The example of the source's documentation, \<open>sumFn = () => 15 + 6\<close> with entangled mode
  on, in four workers whose reports arrive in the order 2, 0, 3, 1.
\<close>

theorem constant_task_resolves_witness:
  "(1 :: int) \<le> 4
   \<and> exec [Step 0, Step 1, Step 2, Step 2, Deliver 2, Step 3, Step 0, Deliver 0, Step 3,
           Deliver 3, Step 1, Deliver 1] (parallel sum_task (Some 4) entangled_on) \<noteq> None
   \<and> quiescent (the (exec [Step 0, Step 1, Step 2, Step 2, Deliver 2, Step 3, Step 0, Deliver 0,
           Step 3, Deliver 3, Step 1, Deliver 1] (parallel sum_task (Some 4) entangled_on)))
   \<and> settled (the (exec [Step 0, Step 1, Step 2, Step 2, Deliver 2, Step 3, Step 0, Deliver 0,
           Step 3, Deliver 3, Step 1, Deliver 1] (parallel sum_task (Some 4) entangled_on)))
       = Some (Inr [21, 21, 21, 21])"
proof -
  let ?sch = "[Step 0, Step 1, Step 2, Step 2, Deliver 2, Step 3, Step 0, Deliver 0, Step 3,
           Deliver 3, Step 1, Deliver 1]"
  let ?run = "parallel sum_task (Some 4) entangled_on"
  have c: "(1 :: int) \<le> 4"
    by simp
  have const: "\<And>i best. snd (sum_task i best) = Inr 21"
    by (simp add: sum_task_def)
  have ne: "exec ?sch ?run \<noteq> None"
    by code_simp
  then obtain s where s: "exec ?sch ?run = Some s"
    by blast
  have "quiescent (the (exec ?sch ?run))"
    by code_simp
  with s have q: "quiescent s"
    by simp
  from constant_task_resolves[OF c const s] q
  have "settled s = Some (Inr (replicate (nat 4) 21))"
    by blast
  moreover have "replicate (nat 4) (21 :: int) = [21, 21, 21, 21]"
    by (simp add: eval_nat_numeral)
  ultimately show ?thesis
    using c ne q s by simp
qed

subsection \<open>No workers\<close>

text \<open>
  C10. With \<open>count = 0\<close> no worker is spawned: in every state of the run there is no
  worker, no step of the run is possible, no report has been seen and the promise is
  pending.
\<close>

theorem zero_count_never_settles:
  assumes "exec sch (parallel f (Some 0) this) = Some s"
  shows "workers s = [] \<and> settled s = None \<and> promise s = Pending
     \<and> observed sch (parallel f (Some 0) this) = []
     \<and> (\<forall>a. by_run a \<longrightarrow> step a s = None)"
proof -
  let ?run = "parallel f (Some 0) this"
  have t: "tally (observed sch ?run) s"
    using tally_exec[OF tally_parallel assms] by simp
  have cnt: "count s = 0" "length (workers s) = 0"
    using exec_count[OF assms] by (simp_all add: workers_parallel)
  from tally_length[OF t] cnt have obs: "observed sch ?run = []"
    by simp
  with settled_tally[OF t] have "settled s = None"
    by simp
  moreover from t obs have "promise s = Pending"
    by (simp add: tally_def)
  moreover have "\<forall>a. by_run a \<longrightarrow> step a s = None"
    using cnt(2) by (simp add: step_no_workers)
  ultimately show ?thesis
    using cnt(2) obs by simp
qed

text \<open>The only executions are calls of \<open>entangledMode\<close>.\<close>

theorem zero_count_never_settles_witness:
  "exec [EntangledMode None, EntangledMode (Some False)] (parallel failing_task (Some 0) entangled_on)
     \<noteq> None
   \<and> settled (the (exec [EntangledMode None, EntangledMode (Some False)]
        (parallel failing_task (Some 0) entangled_on))) = None
   \<and> step (Step 0) (the (exec [EntangledMode None, EntangledMode (Some False)]
        (parallel failing_task (Some 0) entangled_on))) = None"
proof -
  let ?sch = "[EntangledMode None, EntangledMode (Some False)]"
  let ?run = "parallel failing_task (Some 0) entangled_on"
  have "exec ?sch ?run \<noteq> None"
    by (simp add: step_def)
  then obtain s where s: "exec ?sch ?run = Some s"
    by blast
  from zero_count_never_settles[OF s] have "settled s = None" "step (Step 0) s = None"
    by simp_all
  with s show ?thesis by simp
qed

section \<open>The flag is read at launch\<close>

lemma step_flag:
  assumes "by_run a"
  shows "step a (s\<lparr>entangled := x\<rparr>) = map_option (\<lambda>t. t\<lparr>entangled := x\<rparr>) (step a s)"
  using assms
  by (cases a)
    (auto simp: step_def handle_def on_message_def on_error_def resolve_def reject_def Let_def
      split: option.splits pc.splits sum.splits)

lemma in_flight_eq: "in_flight s = in_flight t \<longleftrightarrow> s = t\<lparr>entangled := entangled s\<rparr>"
  by (cases s; cases t) (auto simp: in_flight_def)

lemma in_flight_flag [simp]: "in_flight (s\<lparr>entangled := x\<rparr>) = in_flight s"
  by (simp add: in_flight_def)

lemma in_flight_step:
  assumes "in_flight s = in_flight t" "by_run a"
  shows "rel_option (\<lambda>s' t'. in_flight s' = in_flight t') (step a s) (step a t)"
proof -
  from assms(1) have "s = t\<lparr>entangled := entangled s\<rparr>"
    by (simp add: in_flight_eq)
  then have "step a s = map_option (\<lambda>u. u\<lparr>entangled := entangled s\<rparr>) (step a t)"
    using step_flag[OF assms(2), where s = t and x = "entangled s"] by simp
  then show ?thesis
    by (cases "step a t") simp_all
qed

lemma in_flight_entangledMode:
  assumes "\<not> by_run a"
  shows "\<exists>s'. step a s = Some s' \<and> in_flight s' = in_flight s"
  using assms by (cases a) (simp_all add: step_def in_flight_def)

lemma in_flight_exec:
  "in_flight s = in_flight t \<Longrightarrow>
   rel_option (\<lambda>s' t'. in_flight s' = in_flight t') (exec sch s) (exec (filter by_run sch) t)"
proof (induction sch arbitrary: s t)
  case Nil
  then show ?case by simp
next
  case (Cons a sch)
  show ?case
  proof (cases "by_run a")
    case True
    from in_flight_step[OF Cons.prems True] show ?thesis
      using True Cons.IH by (cases "step a s"; cases "step a t") simp_all
  next
    case False
    from in_flight_entangledMode[OF False, of s] obtain s' where
      "step a s = Some s'" "in_flight s' = in_flight s"
      by blast
    with False Cons.prems Cons.IH[of s' t] show ?thesis
      by simp
  qed
qed

lemma map_option_in_flight:
  "rel_option (\<lambda>s' t'. in_flight s' = in_flight t') x y \<Longrightarrow> map_option in_flight x = map_option in_flight y"
  by (cases x; cases y) simp_all

text \<open>
  C9. The flag is read once, when the run is launched. Calls of \<open>entangledMode\<close> while the
  run is in flight change the class field and nothing else: two executions launched with
  the same value of the flag that differ only in such calls leave the same count,
  results, buffer, workers and promise. In
  every state of the run, \<open>entangledEnabled\<close> is the flag at launch, the buffer is
  allocated exactly if it was set, and every worker has the \<open>workerData\<close> made from it.
\<close>

theorem snapshot_at_launch:
  assumes "entangled this = entangled this'" and "filter by_run sch1 = filter by_run sch2"
  shows "map_option in_flight (exec sch1 (parallel f count_arg this))
       = map_option in_flight (exec sch2 (parallel f count_arg this'))
     \<and> (\<forall>s. exec sch1 (parallel f count_arg this) = Some s \<longrightarrow>
           entangledEnabled s = entangled this
           \<and> (sharedBuffer s = None \<longleftrightarrow> \<not> entangled this)
           \<and> (\<forall>w\<in>set (workers s). workerData w =
                 \<lparr>wd_entangled = entangled this,
                  wd_sharedBuffer = (if entangled this then Some SharedArrayBuffer else None)\<rparr>))"
proof -
  let ?run = "parallel f count_arg this"
  have same: "parallel f count_arg this' = ?run"
    using assms(1) by (simp add: parallel_def)
  have "map_option in_flight (exec sch1 ?run) = map_option in_flight (exec (filter by_run sch1) ?run)"
    by (intro map_option_in_flight in_flight_exec) simp
  moreover have "map_option in_flight (exec sch2 ?run) = map_option in_flight (exec (filter by_run sch2) ?run)"
    by (intro map_option_in_flight in_flight_exec) simp
  moreover have "entangledEnabled s = entangled this
           \<and> (sharedBuffer s = None \<longleftrightarrow> \<not> entangled this)
           \<and> (\<forall>w\<in>set (workers s). workerData w =
                 \<lparr>wd_entangled = entangled this,
                  wd_sharedBuffer = (if entangled this then Some SharedArrayBuffer else None)\<rparr>)"
    if "exec sch1 ?run = Some s" for s
  proof -
    have e: "entangledEnabled s = entangled this"
      using exec_count[OF that] by simp
    moreover have "wired s"
      by (rule wired_exec[OF that wired_parallel])
    ultimately show ?thesis
      by (simp add: wired_def wired_worker_def)
  qed
  ultimately show ?thesis
    using assms(2) same by simp
qed

text \<open>
  Two executions of the same run, one with \<open>entangledMode(false)\<close> and
  \<open>entangledMode()\<close> called between the steps of worker 0, one with
  \<open>entangledMode(false)\<close> called before them.
\<close>

theorem snapshot_at_launch_witness:
  "filter by_run [Step 0, EntangledMode (Some False), Step 0, EntangledMode None, Step 0]
     = filter by_run [EntangledMode (Some False), Step 0, Step 0, Step 0]
   \<and> map_option in_flight
        (exec [Step 0, EntangledMode (Some False), Step 0, EntangledMode None, Step 0]
          (parallel racing_task (Some 2) entangled_on))
     = map_option in_flight
        (exec [EntangledMode (Some False), Step 0, Step 0, Step 0]
          (parallel racing_task (Some 2) entangled_on))
   \<and> map_option entangled
        (exec [Step 0, EntangledMode (Some False), Step 0, EntangledMode None, Step 0]
          (parallel racing_task (Some 2) entangled_on)) = Some True
   \<and> map_option entangled
        (exec [EntangledMode (Some False), Step 0, Step 0, Step 0]
          (parallel racing_task (Some 2) entangled_on)) = Some False"
proof -
  have f: "filter by_run [Step 0, EntangledMode (Some False), Step 0, EntangledMode None, Step 0]
     = filter by_run [EntangledMode (Some False), Step 0, Step 0, Step 0]"
    by simp
  have "map_option entangled
        (exec [Step 0, EntangledMode (Some False), Step 0, EntangledMode None, Step 0]
          (parallel racing_task (Some 2) entangled_on)) = Some True"
    by code_simp
  moreover have "map_option entangled
        (exec [EntangledMode (Some False), Step 0, Step 0, Step 0]
          (parallel racing_task (Some 2) entangled_on)) = Some False"
    by code_simp
  ultimately show ?thesis
    using f snapshot_at_launch[OF refl f, where this = entangled_on and f = racing_task
        and count_arg = "Some 2"] by blast
qed

end
